theory Spec2Isabelle
  imports Complex_Main "HOL-Library.List_Lexorder" "HOL-Library.Char_ord" "HOL-Library.AList" "HOL-Library.Log_Nat"
begin

section \<open>The JavaScript Date object, as far as the habit tracker uses it\<close>

text \<open>
  A \<open>Date\<close> is modelled by its local time value \<open>LocalTime(t)\<close>: the number of
  milliseconds since local midnight of 1970-01-01, which is what \<open>getFullYear\<close>,
  \<open>getMonth\<close>, \<open>getDate\<close>, \<open>getDay\<close>, \<open>setDate\<close> and \<open>setHours\<close> work on. The
  calendar functions follow the definitions of ECMA-262 (Day, DayFromYear, DaysInYear,
  YearFromTime, MonthFromTime, DateFromTime, MakeDay); all numbers that occur are
  integers far below \<open>2^53\<close>, where a double is exact, and time values are taken inside
  the range of valid Dates. The time zone, with its daylight-saving transitions, is a
  parameter (\<open>zone\<close> below): it relates the local time value to the time value that
  \<open>Date.parse\<close> produces and that the subtraction of two Dates reads.
  The calendar fields are read and written on the local time value alone: a
  transition of the zone is taken to shift the clock inside a calendar day, not to
  skip a calendar date.
\<close>

definition msPerDay :: int where
  "msPerDay = 1000 * 60 * 60 * 24"

definition Day :: "int \<Rightarrow> int" where
  "Day t = t div msPerDay"

definition DaysInYear :: "int \<Rightarrow> int" where
  "DaysInYear y =
     (if y mod 4 \<noteq> 0 then 365
      else if y mod 100 \<noteq> 0 then 366
      else if y mod 400 \<noteq> 0 then 365
      else 366)"

definition DayFromYear :: "int \<Rightarrow> int" where
  "DayFromYear y =
     365 * (y - 1970) + (y - 1969) div 4 - (y - 1901) div 100 + (y - 1601) div 400"

text \<open>
  YearFromTime is the largest year whose first day is not after the given day. It is
  computed from the mean length of a Gregorian year (146097 days in 400 years) and
  corrected by at most one year; lemma \<open>YearFromDay_unique\<close> shows that this is the
  year ECMA-262 specifies.
\<close>

definition YearFromDay :: "int \<Rightarrow> int" where
  "YearFromDay d =
     (let y = 1970 + (400 * d) div 146097
      in if DayFromYear (y + 1) \<le> d then y + 1
         else if d < DayFromYear y then y - 1
         else y)"

definition monthLengths :: "int \<Rightarrow> int list" where
  "monthLengths y =
     [31, if DaysInYear y = 366 then 29 else 28, 31, 30, 31, 30, 31, 31, 30, 31, 30, 31]"

text \<open>
  \<open>splitDays m ls r\<close> walks the month lengths \<open>ls\<close> with the day-within-year \<open>r\<close>
  (counted from 0) and returns the month index (counted from \<open>m\<close>) and the day of the
  month (counted from 1): MonthFromTime and DateFromTime.
\<close>

fun splitDays :: "int \<Rightarrow> int list \<Rightarrow> int \<Rightarrow> int \<times> int" where
  "splitDays m [] r = (m, r + 1)"
| "splitDays m (l # ls) r = (if r < l then (m, r + 1) else splitDays (m + 1) ls (r - l))"

definition MakeDay :: "int \<Rightarrow> int \<Rightarrow> int \<Rightarrow> int" where
  "MakeDay y m d =
     (let ym = y + m div 12; mn = nat (m mod 12)
      in DayFromYear ym + sum_list (take mn (monthLengths ym)) + d - 1)"

definition getFullYear :: "int \<Rightarrow> int" where
  "getFullYear t = YearFromDay (Day t)"

definition getMonth :: "int \<Rightarrow> int" where
  "getMonth t =
     fst (splitDays 0 (monthLengths (getFullYear t)) (Day t - DayFromYear (getFullYear t)))"

definition getDate :: "int \<Rightarrow> int" where
  "getDate t =
     snd (splitDays 0 (monthLengths (getFullYear t)) (Day t - DayFromYear (getFullYear t)))"

text \<open>\<open>getDay\<close>: 0 is Sunday, 6 is Saturday; 1970-01-01 was a Thursday.\<close>

definition getDay :: "int \<Rightarrow> int" where
  "getDay t = (Day t + 4) mod 7"

text \<open>
  \<open>new Date(year, month, day)\<close>: local midnight of that day. A year from 0 to 99 means
  1900 + year; month and day outside their ranges carry over (MakeDay).
\<close>

definition newDate :: "int \<Rightarrow> int \<Rightarrow> int \<Rightarrow> int" where
  "newDate year month day =
     MakeDay (if 0 \<le> year \<and> year \<le> 99 then 1900 + year else year) month day * msPerDay"

text \<open>\<open>d.setHours(0, 0, 0, 0)\<close> and \<open>d.setDate(n)\<close>, returning the new time value.\<close>

definition setHours0 :: "int \<Rightarrow> int" where
  "setHours0 t = t - t mod msPerDay"

definition setDate :: "int \<Rightarrow> int \<Rightarrow> int" where
  "setDate t n = MakeDay (getFullYear t) (getMonth t) n * msPerDay + t mod msPerDay"

section \<open>Time zones\<close>

text \<open>
  A time zone is the function LocalTZA of ECMA-262: \<open>z t True\<close> is the offset of local
  time from UTC, in milliseconds, in force at the UTC time value \<open>t\<close>, and
  \<open>z t False\<close> is the offset in force at the local time value \<open>t\<close>.
  \<open>LocalTime\<close> and \<open>UTC\<close> convert between the two kinds of time value.
\<close>

type_synonym zone = "int \<Rightarrow> bool \<Rightarrow> int"

definition LocalTime :: "zone \<Rightarrow> int \<Rightarrow> int" where
  "LocalTime z t = t + z t True"

definition UTC :: "zone \<Rightarrow> int \<Rightarrow> int" where
  "UTC z t = t - z t False"

text \<open>A zone without daylight saving: the same offset at all times.\<close>

definition fixedOffset :: "int \<Rightarrow> zone" where
  "fixedOffset tz = (\<lambda>t isUTC. tz)"

text \<open>
  Central European time with the daylight-saving period of 2024: one hour east of UTC,
  and two hours from 2024-03-31T01:00Z until 2024-10-27T01:00Z. A local time in that
  period is one whose UTC time, read with the two-hour offset, lies in it.
\<close>

definition centralEurope2024 :: zone where
  "centralEurope2024 t isUTC =
     (let start = MakeDay 2024 2 31 * msPerDay + 3600000;
          finish = MakeDay 2024 9 27 * msPerDay + 3600000;
          u = (if isUTC then t else t - 7200000)
      in if start \<le> u \<and> u < finish then 7200000 else 3600000)"

section \<open>Strings: number formatting, padStart, date keys\<close>

definition digitChar :: "nat \<Rightarrow> char" where
  "digitChar n = ''0123456789'' ! n"

function showNat :: "int \<Rightarrow> string" where
  "showNat n =
     (if n < 10 then [digitChar (nat n)]
      else showNat (n div 10) @ [digitChar (nat (n mod 10))])"
  by pat_completeness auto
termination
  by (relation "measure nat") auto

declare showNat.simps [simp del]

definition showInt :: "int \<Rightarrow> string" where
  "showInt i = (if i < 0 then CHR ''-'' # showNat (- i) else showNat i)"

definition padStart2 :: "string \<Rightarrow> string" where
  "padStart2 s = replicate (2 - length s) CHR ''0'' @ s"

text \<open>
  \<open>getDateKey\<close> (lines 21-24). The callers modelled here pass a Date, which
  \<open>new Date(date)\<close> copies.
\<close>

definition getDateKey :: "int \<Rightarrow> string" where
  "getDateKey d =
     showInt (getFullYear d) @ ''-'' @ padStart2 (showInt (getMonth d + 1)) @ ''-'' @
     padStart2 (showInt (getDate d))"

text \<open>
  \<open>new Date(s)\<close> for a string \<open>s\<close>. Only the date-only ISO form \<open>YYYY-MM-DD\<close> is
  modelled, the form of every date key the application writes for the years 1000 to
  9999: it denotes UTC midnight of that day, the time value \<open>day * msPerDay\<close>. Any
  other string, and a day that the month does not have, counts as an invalid date
  (\<open>None\<close>, the time value NaN).
\<close>

definition digitVal :: "char \<Rightarrow> int option" where
  "digitVal c = (let n = (of_char c :: int) in if 48 \<le> n \<and> n \<le> 57 then Some (n - 48) else None)"

fun parseDigits :: "string \<Rightarrow> int \<Rightarrow> int option" where
  "parseDigits [] acc = Some acc"
| "parseDigits (c # cs) acc =
     (case digitVal c of None \<Rightarrow> None | Some v \<Rightarrow> parseDigits cs (10 * acc + v))"

definition dateParse :: "string \<Rightarrow> int option" where
  "dateParse s =
     (if length s = 10 \<and> s ! 4 = CHR ''-'' \<and> s ! 7 = CHR ''-'' then
        (case (parseDigits (take 4 s) 0, parseDigits (take 2 (drop 5 s)) 0,
               parseDigits (drop 8 s) 0) of
           (Some y, Some m, Some d) \<Rightarrow>
             if 1 \<le> m \<and> m \<le> 12 \<and> 1 \<le> d \<and> d \<le> monthLengths y ! nat (m - 1)
             then Some (MakeDay y (m - 1) d) else None
         | _ \<Rightarrow> None)
      else None)"

definition dateFromString :: "zone \<Rightarrow> string \<Rightarrow> int option" where
  "dateFromString z s = map_option (\<lambda>day. LocalTime z (day * msPerDay)) (dateParse s)"

text \<open>
  \<open>getDaysDifference\<close> (lines 26-32) on the two Dates its callers construct; \<open>None\<close>
  is NaN, the result when either Date is invalid. \<open>d1 - d2\<close> subtracts the time
  values (UTC) of the two local midnights, which differ by a multiple of a day only
  when both have the same offset. The quotient of two integers this small is rounded
  by less than its distance to the next integer, so \<open>Math.floor\<close> of it is \<open>div\<close>.
\<close>

definition getDaysDifference :: "zone \<Rightarrow> int option \<Rightarrow> int option \<Rightarrow> int option" where
  "getDaysDifference z date1 date2 =
     (case (date1, date2) of
        (Some d1, Some d2) \<Rightarrow>
          Some ((UTC z (setHours0 d1) - UTC z (setHours0 d2)) div (1000 * 60 * 60 * 24))
      | _ \<Rightarrow> None)"

section \<open>Habits and their completion maps\<close>

text \<open>
  A completion map is a JavaScript object from date keys to \<open>true\<close>: an association
  list in insertion order without repeated keys. \<open>c[k] = true\<close> is \<open>AList.update\<close>
  (in place, or appended), \<open>delete c[k]\<close> is \<open>AList.delete\<close>, \<open>Object.keys\<close> lists
  the keys, and \<open>truthy c k\<close> is the test \<open>if (c[k])\<close>.
\<close>

type_synonym completions = "(string \<times> bool) list"

definition objectKeys :: "completions \<Rightarrow> string list" where
  "objectKeys c = map fst c"

definition truthy :: "completions \<Rightarrow> string \<Rightarrow> bool" where
  "truthy c k = (map_of c k = Some True)"

record habit =
  hid :: string
  name :: string
  description :: string
  frequency :: string
  selectedDays :: "int list option"
  difficulty :: string
  createdAt :: int
  completions :: "completions option"
  currentStreak :: int
  longestStreak :: int

record habitData =
  formName :: string
  formDescription :: string
  formFrequency :: string
  formSelectedDays :: "int list"
  formDifficulty :: string

record user =
  habits :: "habit list"

section \<open>calculateStreaks (lines 211-245)\<close>

text \<open>The \<open>while (true)\<close> loop of lines 219-228, from the state at its head.\<close>

function walkBack :: "completions \<Rightarrow> int \<Rightarrow> int \<Rightarrow> int" where
  "walkBack c checkDate current =
     (if truthy c (getDateKey checkDate)
      then (if current + 1 > 365 then current + 1
            else walkBack c (setDate checkDate (getDate checkDate - 1)) (current + 1))
      else current)"
  by pat_completeness auto
termination
  by (relation "measure (\<lambda>(c, checkDate, current). nat (366 - current))") auto

declare walkBack.simps [simp del]

text \<open>The inner loop over \<open>j\<close> (lines 233-240) and the outer loop over \<open>i\<close> (231-242).\<close>

definition gapContinues :: "string \<Rightarrow> int option \<Rightarrow> bool" where
  "gapContinues freq diff =
     (diff = Some 1 \<or> (freq = ''weekly'' \<and> (case diff of None \<Rightarrow> False | Some n \<Rightarrow> n \<le> 7)))"

function innerLoop :: "zone \<Rightarrow> string \<Rightarrow> string list \<Rightarrow> nat \<Rightarrow> int \<Rightarrow> int" where
  "innerLoop z freq sortedDates j tempStreak =
     (if j < length sortedDates then
        (let diff = getDaysDifference z (dateFromString z (sortedDates ! j))
                      (dateFromString z (sortedDates ! (j - 1)))
         in if gapContinues freq diff
            then innerLoop z freq sortedDates (j + 1) (tempStreak + 1)
            else tempStreak)
      else tempStreak)"
  by pat_completeness auto
termination
  by (relation "measure (\<lambda>(z, freq, sortedDates, j, tempStreak). length sortedDates - j)") auto

declare innerLoop.simps [simp del]

function outerLoop :: "zone \<Rightarrow> string \<Rightarrow> string list \<Rightarrow> nat \<Rightarrow> int \<Rightarrow> int" where
  "outerLoop z freq sortedDates i longest =
     (if i < length sortedDates
      then outerLoop z freq sortedDates (i + 1)
             (max longest (innerLoop z freq sortedDates (i + 1) 1))
      else longest)"
  by pat_completeness auto
termination
  by (relation "measure (\<lambda>(z, freq, sortedDates, i, longest). length sortedDates - i)") auto

declare outerLoop.simps [simp del]

text \<open>The result is the pair \<open>(currentStreak, longestStreak)\<close>; the local variables of
  these names are \<open>current\<close> and \<open>longest\<close> here.\<close>

definition calculateStreaks :: "zone \<Rightarrow> habit \<Rightarrow> completions \<Rightarrow> int \<Rightarrow> int \<times> int" where
  "calculateStreaks z habit c referenceDate =
     (let dates = rev (sort (objectKeys c))
      in if length dates = 0 then (0, 0)
         else
           (let current = walkBack c referenceDate 0;
                sortedDates = sort (objectKeys c);
                longest = outerLoop z (frequency habit) sortedDates 0 0
            in (current, max longest current)))"

section \<open>Writing habits: addHabit, updateHabit, toggleHabitCompletion (lines 163-209)\<close>

text \<open>
  \<open>generateId()\<close> and \<open>new Date()\<close> are inputs of \<open>addHabit\<close>; \<open>createdAt\<close> holds
  the Date that the stored ISO string denotes, as a local time value like every Date
  here. The fields after
  \<open>...habitData\<close> in the object literal override the form's, so a new habit always has
  an empty completion map and both streaks 0.
\<close>

definition addHabit :: "string \<Rightarrow> int \<Rightarrow> habitData \<Rightarrow> user \<Rightarrow> user" where
  "addHabit newId now habitData currentUser =
     currentUser\<lparr>habits := habits currentUser @
       [\<lparr>hid = newId, name = formName habitData, description = formDescription habitData,
         frequency = formFrequency habitData,
         selectedDays = Some (formSelectedDays habitData),
         difficulty = formDifficulty habitData, createdAt = now, completions = Some [],
         currentStreak = 0, longestStreak = 0\<rparr>]\<rparr>"

text \<open>\<open>updates\<close> is the effect of the spread \<open>{ ...h, ...updates }\<close> on a habit.\<close>

definition updateHabit :: "string \<Rightarrow> (habit \<Rightarrow> habit) \<Rightarrow> user \<Rightarrow> user" where
  "updateHabit habitId updates currentUser =
     currentUser\<lparr>habits := map (\<lambda>h. if hid h = habitId then updates h else h)
                                (habits currentUser)\<rparr>"

text \<open>The edit form (line 404) passes its five fields as \<open>updates\<close>.\<close>

definition editHabit :: "string \<Rightarrow> habitData \<Rightarrow> user \<Rightarrow> user" where
  "editHabit habitId habitData currentUser =
     updateHabit habitId
       (\<lambda>h. h\<lparr>name := formName habitData, description := formDescription habitData,
               frequency := formFrequency habitData,
               selectedDays := Some (formSelectedDays habitData),
               difficulty := formDifficulty habitData\<rparr>) currentUser"

text \<open>Lines 200-205: the copy of the completion map with the key flipped.\<close>

definition toggleCompletion :: "completions \<Rightarrow> string \<Rightarrow> completions" where
  "toggleCompletion c dateKey =
     (if truthy c dateKey then AList.delete dateKey c else AList.update dateKey True c)"

definition toggleHabitCompletion :: "zone \<Rightarrow> string \<Rightarrow> int \<Rightarrow> user \<Rightarrow> user" where
  "toggleHabitCompletion z habitId selected currentUser =
     (let dateKey = getDateKey selected
      in case find (\<lambda>h. hid h = habitId) (habits currentUser) of
           None \<Rightarrow> currentUser
         | Some habit \<Rightarrow>
             (let c = toggleCompletion (case completions habit of None \<Rightarrow> [] | Some c0 \<Rightarrow> c0)
                        dateKey;
                  (current, longest) = calculateStreaks z habit c selected
              in updateHabit habitId
                   (\<lambda>h. h\<lparr>completions := Some c, currentStreak := current,
                           longestStreak := longest\<rparr>) currentUser))"

section \<open>The habits of the selected day (lines 540-547)\<close>

text \<open>
  The predicate of the \<open>todayHabits\<close> filter. \<open>habit.selectedDays?.includes(day)\<close> is
  \<open>undefined\<close> when the field is absent, which the filter takes as false.
\<close>

definition isApplicable :: "habit \<Rightarrow> int \<Rightarrow> bool" where
  "isApplicable habit selectedDate =
     (if frequency habit = ''daily'' then True
      else if frequency habit = ''weekly'' then
        (let wd = getDay selectedDate
         in case selectedDays habit of None \<Rightarrow> False | Some ds \<Rightarrow> wd \<in> set ds)
      else True)"

definition todayHabits :: "user \<Rightarrow> int \<Rightarrow> habit list" where
  "todayHabits u selectedDate = filter (\<lambda>h. isApplicable h selectedDate) (habits u)"

section \<open>getMonthlyData (lines 284-298)\<close>

record monthEntry =
  day :: int
  completed :: int
  date :: string

function monthLoop ::
  "habit \<Rightarrow> int \<Rightarrow> int \<Rightarrow> int \<Rightarrow> int \<Rightarrow> monthEntry list \<Rightarrow> monthEntry list" where
  "monthLoop habit month year daysInMonth d acc =
     (if d \<le> daysInMonth then
        (let dateKey = getDateKey (newDate year month d)
         in monthLoop habit month year daysInMonth (d + 1)
              (acc @ [\<lparr>day = d,
                       completed =
                         (if (case completions habit of None \<Rightarrow> False
                              | Some c \<Rightarrow> truthy c dateKey) then 1 else 0),
                       date = dateKey\<rparr>]))
      else acc)"
  by pat_completeness auto
termination
  by (relation "measure (\<lambda>(habit, month, year, daysInMonth, d, acc). nat (daysInMonth + 1 - d))")
    auto

declare monthLoop.simps [simp del]

definition getMonthlyData :: "habit \<Rightarrow> int \<Rightarrow> int \<Rightarrow> monthEntry list" where
  "getMonthlyData habit month year =
     (let daysInMonth = getDate (newDate year (month + 1) 0)
      in monthLoop habit month year daysInMonth 1 [])"

text \<open>The entry that one iteration of the loop pushes, for the day \<open>d\<close>.\<close>

definition monthEntryOf :: "habit \<Rightarrow> int \<Rightarrow> int \<Rightarrow> int \<Rightarrow> monthEntry" where
  "monthEntryOf h m y d =
     \<lparr>day = d,
      completed = (if (case completions h of None \<Rightarrow> False
                       | Some c \<Rightarrow> truthy c (getDateKey (newDate y m d))) then 1 else 0),
      date = getDateKey (newDate y m d)\<rparr>"

section \<open>JavaScript numbers that are not integers\<close>

text \<open>
  A Number is an IEEE 754 binary64 value. The two completion rates are the only
  non-integer numbers of the program; they are modelled by the rational number that the
  double holds. \<open>fl x\<close> rounds a rational to the nearest double, ties to even: a
  significand of 53 bits at the binary exponent of \<open>x\<close> (\<open>binade\<close>). Overflow and
  subnormal numbers do not occur for quotients of counts and their hundredfold.
\<close>

definition roundHalfEven :: "rat \<Rightarrow> int" where
  "roundHalfEven x =
     (let f = \<lfloor>x\<rfloor>; r = x - of_int f
      in if r < 1 / 2 then f else if 1 / 2 < r then f + 1 else if even f then f else f + 1)"

definition binade :: "rat \<Rightarrow> int" where
  "binade x =
     (let (p, q) = quotient_of \<bar>x\<bar>; k = bitlen p - bitlen q
      in if 2 powi k \<le> \<bar>x\<bar> then k else k - 1)"

definition fl :: "rat \<Rightarrow> rat" where
  "fl x = (if x = 0 then 0
           else (let u = 2 powi (binade x - 52) in of_int (roundHalfEven (x / u)) * u))"

definition jsDiv :: "rat \<Rightarrow> rat \<Rightarrow> rat" where
  "jsDiv a b = fl (a / b)"

definition jsMul :: "rat \<Rightarrow> rat \<Rightarrow> rat" where
  "jsMul a b = fl (a * b)"

text \<open>
  \<open>x.toFixed(1)\<close> for \<open>\<bar>x\<bar> < 10^21\<close>: the integer \<open>n\<close> for which \<open>n / 10\<close> is nearest to
  \<open>\<bar>x\<bar>\<close> (the larger one of two), written with one digit after the point.
\<close>

definition toFixed1 :: "rat \<Rightarrow> string" where
  "toFixed1 x =
     (let n = \<lfloor>\<bar>x\<bar> * 10 + 1 / 2\<rfloor>
      in (if x < 0 then ''-'' else []) @ showNat (n div 10) @ ''.'' @ showNat (n mod 10))"

section \<open>getHabitStats (lines 271-282)\<close>

text \<open>
  \<open>now\<close> is \<open>new Date()\<close>. The fields \<open>currentStreak\<close> and \<open>longestStreak\<close> of the
  result are named \<open>statCurrentStreak\<close> and \<open>statLongestStreak\<close> here; \<open>x || 0\<close> is
  \<open>x\<close> for a number.
\<close>

record habitStats =
  totalCompletions :: int
  completionRate :: string
  statCurrentStreak :: int
  statLongestStreak :: int

definition getHabitStats :: "zone \<Rightarrow> int \<Rightarrow> habit \<Rightarrow> habitStats" where
  "getHabitStats z now habit =
     (let keys = objectKeys (case completions habit of None \<Rightarrow> [] | Some c \<Rightarrow> c);
          totalDays = getDaysDifference z (Some now) (Some (createdAt habit));
          rate = (case totalDays of
                    None \<Rightarrow> 0
                  | Some n \<Rightarrow>
                      if n > 0 then jsMul (jsDiv (of_nat (length keys)) (of_int n)) 100 else 0)
      in \<lparr>totalCompletions = int (length keys), completionRate = toFixed1 rate,
          statCurrentStreak = currentStreak habit, statLongestStreak = longestStreak habit\<rparr>)"

section \<open>getYearlyData (lines 300-314)\<close>

text \<open>
  The fields \<open>month\<close>, \<open>completionRate\<close> and \<open>completions\<close> of an entry are named
  \<open>yMonth\<close>, \<open>yCompletionRate\<close> and \<open>yCompletions\<close>. \<open>monthShort\<close> is the short
  month name of the locale en-US. \<open>yearEntryOf\<close> is the body of the loop.
\<close>

record yearEntry =
  yMonth :: string
  yCompletionRate :: rat
  yCompletions :: int

definition monthShort :: "int \<Rightarrow> string" where
  "monthShort m =
     [''Jan'', ''Feb'', ''Mar'', ''Apr'', ''May'', ''Jun'', ''Jul'', ''Aug'', ''Sep'', ''Oct'',
      ''Nov'', ''Dec''] ! nat m"

definition yearEntryOf :: "habit \<Rightarrow> int \<Rightarrow> int \<Rightarrow> yearEntry" where
  "yearEntryOf habit year month =
     (let monthData = getMonthlyData habit month year;
          done = int (length (filter (\<lambda>d. completed d \<noteq> 0) monthData));
          total = int (length monthData)
      in \<lparr>yMonth = monthShort (getMonth (newDate year month 1)),
          yCompletionRate =
            (if total > 0 then jsMul (jsDiv (of_int done) (of_int total)) 100 else 0),
          yCompletions = done\<rparr>)"

function yearLoop :: "habit \<Rightarrow> int \<Rightarrow> int \<Rightarrow> yearEntry list \<Rightarrow> yearEntry list" where
  "yearLoop habit year month acc =
     (if month < 12 then yearLoop habit year (month + 1) (acc @ [yearEntryOf habit year month])
      else acc)"
  by pat_completeness auto
termination
  by (relation "measure (\<lambda>(habit, year, month, acc). nat (12 - month))") auto

declare yearLoop.simps [simp del]

definition getYearlyData :: "habit \<Rightarrow> int \<Rightarrow> yearEntry list" where
  "getYearlyData habit year = yearLoop habit year 0 []"

section \<open>The specification's notions\<close>

text \<open>
  A well-formed completion map has no repeated key, maps every key to \<open>true\<close>, and
  every key is a valid calendar date in the form \<open>YYYY-MM-DD\<close>.
\<close>

definition wellFormed :: "completions \<Rightarrow> bool" where
  "wellFormed c = (distinct (map fst c) \<and> list_all (\<lambda>(k, v). v \<and> dateParse k \<noteq> None) c)"

text \<open>
  The current streak in the specification's words: the number of consecutive calendar
  days, walking backward from the reference date, whose keys are present, counted up to
  the first missing day and at most 366.
\<close>

definition spec_dayBefore :: "int \<Rightarrow> nat \<Rightarrow> int" where
  "spec_dayBefore referenceDate i = referenceDate - int i * msPerDay"

definition spec_currentStreak :: "completions \<Rightarrow> int \<Rightarrow> int" where
  "spec_currentStreak c referenceDate =
     int (length (takeWhile
       (\<lambda>i. getDateKey (spec_dayBefore referenceDate i) \<in> set (objectKeys c)) [0..<366]))"

text \<open>
  The longest streak in the specification's words. The gap between two date keys is the
  number of days between the calendar days they denote; a run starting at index \<open>i\<close> of
  the sorted keys extends through the following keys while the gap to the previous key
  is 1 day or, for a weekly habit, at most 7 days.
\<close>

definition spec_dayOfKey :: "string \<Rightarrow> int" where
  "spec_dayOfKey k = the (dateParse k)"

definition spec_extends :: "string \<Rightarrow> string \<Rightarrow> string \<Rightarrow> bool" where
  "spec_extends freq a b =
     (let gap = spec_dayOfKey b - spec_dayOfKey a in gap = 1 \<or> (freq = ''weekly'' \<and> gap \<le> 7))"

definition spec_runLength :: "string \<Rightarrow> string list \<Rightarrow> nat \<Rightarrow> nat" where
  "spec_runLength freq ks i =
     1 + length (takeWhile (\<lambda>j. spec_extends freq (ks ! (j - 1)) (ks ! j)) [i + 1 ..< length ks])"

definition spec_longestRun :: "string \<Rightarrow> string list \<Rightarrow> int" where
  "spec_longestRun freq ks =
     (if ks = [] then 0 else int (Max (set (map (spec_runLength freq ks) [0 ..< length ks]))))"

definition streakInvariant :: "habit \<Rightarrow> bool" where
  "streakInvariant h =
     (0 \<le> currentStreak h \<and> 0 \<le> longestStreak h \<and> currentStreak h \<le> longestStreak h)"

text \<open>The month lengths of the Gregorian calendar, for a month index from 0 to 11.\<close>

definition spec_daysInMonth :: "int \<Rightarrow> int \<Rightarrow> int" where
  "spec_daysInMonth month year =
     (if month = 1 then
        (if year mod 4 = 0 \<and> (year mod 100 \<noteq> 0 \<or> year mod 400 = 0) then 29 else 28)
      else if month = 3 \<or> month = 5 \<or> month = 8 \<or> month = 10 then 30
      else 31)"

text \<open>
  \<open>containsRun c referenceDate n\<close>: the keys of the \<open>n\<close> consecutive calendar days
  that end at the reference date are all present in \<open>c\<close>.
\<close>

definition containsRun :: "completions \<Rightarrow> int \<Rightarrow> nat \<Rightarrow> bool" where
  "containsRun c referenceDate n =
     list_all (\<lambda>i. getDateKey (spec_dayBefore referenceDate i) \<in> set (objectKeys c)) [0..<n]"

text \<open>
  The completion map that holds exactly the \<open>n\<close> consecutive days ending at \<open>t\<close>,
  inserted from the latest day backward.
\<close>

definition runCompletions :: "int \<Rightarrow> nat \<Rightarrow> completions" where
  "runCompletions t n = map (\<lambda>i. (getDateKey (spec_dayBefore t i), True)) [0..<n]"

text \<open>
  The day count and the key count of the completion rate, in the specification's words:
  the days between the calendar day of \<open>now\<close> and the calendar day of creation, and
  the number of completion keys.
\<close>

definition spec_daysSinceCreation :: "int \<Rightarrow> habit \<Rightarrow> int" where
  "spec_daysSinceCreation now h = Day now - Day (createdAt h)"

definition spec_keyCount :: "habit \<Rightarrow> nat" where
  "spec_keyCount h = (case completions h of None \<Rightarrow> 0 | Some c \<Rightarrow> length c)"

text \<open>The completed days and all days of a month's series.\<close>

definition spec_completedDays :: "habit \<Rightarrow> int \<Rightarrow> int \<Rightarrow> int" where
  "spec_completedDays h month year =
     int (length (filter (\<lambda>d. completed d = 1) (getMonthlyData h month year)))"

definition spec_totalDaysInMonth :: "habit \<Rightarrow> int \<Rightarrow> int \<Rightarrow> int" where
  "spec_totalDaysInMonth h month year = int (length (getMonthlyData h month year))"

text \<open>
  The completion map that holds the days \<open>i\<close> days before \<open>t\<close>, for the \<open>i\<close> of a
  list.
\<close>

definition daysCompletions :: "int \<Rightarrow> nat list \<Rightarrow> completions" where
  "daysCompletions t ix = map (\<lambda>i. (getDateKey (spec_dayBefore t i), True)) ix"

text \<open>A habit used in the examples.\<close>

definition exampleHabit :: "string \<Rightarrow> int list option \<Rightarrow> habit" where
  "exampleHabit freq ds =
     \<lparr>hid = ''h1'', name = ''Read'', description = [], frequency = freq,
      selectedDays = ds, difficulty = ''medium'', createdAt = newDate 2024 0 1,
      completions = Some [], currentStreak = 0, longestStreak = 0\<rparr>"


section \<open>Calendar arithmetic\<close>

subsection \<open>Years\<close>

lemma div_bounds:
  fixes x k :: int
  assumes "0 < k"
  shows "k * (x div k) \<le> x" and "x < k * (x div k) + k"
proof -
  have "x = k * (x div k) + x mod k" by simp
  moreover have "0 \<le> x mod k" "x mod k < k" using assms by simp_all
  ultimately show "k * (x div k) \<le> x" and "x < k * (x div k) + k" by linarith+
qed

lemma div_succ:
  fixes x k :: int
  assumes "0 < k"
  shows "(x + 1) div k = x div k + (if (x + 1) mod k = 0 then 1 else 0)"
proof -
  define q where "q = (x + 1) div k"
  define r where "r = (x + 1) mod k"
  have x1: "x + 1 = k * q + r" and r: "0 \<le> r" "r < k"
    using assms by (simp_all add: q_def r_def)
  show ?thesis
  proof (cases "r = 0")
    case True
    have "x = k * (q - 1) + (k - 1)" using x1 True by (simp add: algebra_simps)
    then have "x div k = q - 1"
      using assms by (intro int_div_pos_eq[where r = "k - 1"]) simp_all
    then show ?thesis using True by (simp add: q_def[symmetric] r_def[symmetric])
  next
    case False
    have "x = k * q + (r - 1)" using x1 by simp
    then have "x div k = q"
      using r False by (intro int_div_pos_eq[where r = "r - 1"]) simp_all
    then show ?thesis using False by (simp add: q_def[symmetric] r_def[symmetric])
  qed
qed

lemma DayFromYear_step: "DayFromYear (y + 1) = DayFromYear y + DaysInYear y"
proof -
  have m4: "(y - 1968) mod 4 = y mod 4"
    using mod_mult_self1[of y "-492" 4] by simp
  have m100: "(y - 1900) mod 100 = y mod 100"
    using mod_mult_self1[of y "-19" 100] by simp
  have m400: "(y - 1600) mod 400 = y mod 400"
    using mod_mult_self1[of y "-4" 400] by simp
  have a: "(y + 1 - 1969) div 4 = (y - 1969) div 4 + (if y mod 4 = 0 then 1 else 0)"
    using div_succ[of 4 "y - 1969"] m4 by (simp add: algebra_simps)
  have b: "(y + 1 - 1901) div 100 = (y - 1901) div 100 + (if y mod 100 = 0 then 1 else 0)"
    using div_succ[of 100 "y - 1901"] m100 by (simp add: algebra_simps)
  have c: "(y + 1 - 1601) div 400 = (y - 1601) div 400 + (if y mod 400 = 0 then 1 else 0)"
    using div_succ[of 400 "y - 1601"] m400 by (simp add: algebra_simps)
  have d1: "y mod 4 = 0" if "y mod 100 = 0"
  proof -
    from that have "100 dvd y" by (simp add: mod_eq_0_iff_dvd)
    then have "4 dvd y" by (rule dvd_trans[rotated]) simp
    then show ?thesis by (simp add: mod_eq_0_iff_dvd)
  qed
  have d2: "y mod 100 = 0" if "y mod 400 = 0"
  proof -
    from that have "400 dvd y" by (simp add: mod_eq_0_iff_dvd)
    then have "100 dvd y" by (rule dvd_trans[rotated]) simp
    then show ?thesis by (simp add: mod_eq_0_iff_dvd)
  qed
  show ?thesis
    unfolding DayFromYear_def DaysInYear_def a b c using d1 d2 by auto
qed

lemma DaysInYear_cases: "DaysInYear y = 365 \<or> DaysInYear y = 366"
  by (simp add: DaysInYear_def)

lemma DayFromYear_lower: "146097 * y \<le> 400 * DayFromYear y + 287811596"
proof -
  define a where "a = (y - 1969) div 4"
  define b where "b = (y - 1901) div 100"
  define c where "c = (y - 1601) div 400"
  have "y < 4 * a + 1973" "100 * b \<le> y - 1901" "y < 400 * c + 2001"
    unfolding a_def b_def c_def
    using div_bounds[where k=4 and x="y - 1969"] div_bounds[where k=100 and x="y - 1901"]
      div_bounds[where k=400 and x="y - 1601"] by simp_all
  moreover have "DayFromYear y = 365 * y - 719050 + a - b + c"
    by (simp add: DayFromYear_def a_def b_def c_def)
  ultimately show ?thesis by linarith
qed

lemma DayFromYear_upper: "400 * DayFromYear y \<le> 146097 * y - 287810501"
proof -
  define a where "a = (y - 1969) div 4"
  define b where "b = (y - 1901) div 100"
  define c where "c = (y - 1601) div 400"
  have "4 * a \<le> y - 1969" "y < 100 * b + 2001" "400 * c \<le> y - 1601"
    unfolding a_def b_def c_def
    using div_bounds[where k=4 and x="y - 1969"] div_bounds[where k=100 and x="y - 1901"]
      div_bounds[where k=400 and x="y - 1601"] by simp_all
  moreover have "DayFromYear y = 365 * y - 719050 + a - b + c"
    by (simp add: DayFromYear_def a_def b_def c_def)
  ultimately show ?thesis by linarith
qed

lemma YearFromDay_bounds:
  "DayFromYear (YearFromDay d) \<le> d \<and> d < DayFromYear (YearFromDay d + 1)"
proof -
  define q where "q = (400 * d) div 146097"
  define y where "y = 1970 + q"
  have q: "146097 * q \<le> 400 * d" "400 * d < 146097 * q + 146097"
    using div_bounds[where k=146097 and x="400 * d"] by (simp_all add: q_def)
  have "146097 * (y + 1 + 1) = 146097 * q + 288103284" by (simp add: y_def)
  then have l2: "d < DayFromYear (y + 1 + 1)"
    using DayFromYear_lower[of "y + 1 + 1"] q by linarith
  have "146097 * (y - 1) = 146097 * q + 287664993" by (simp add: y_def)
  then have l1: "DayFromYear (y - 1) \<le> d"
    using DayFromYear_upper[of "y - 1"] q by linarith
  have yfd: "YearFromDay d =
      (if DayFromYear (y + 1) \<le> d then y + 1 else if d < DayFromYear y then y - 1 else y)"
    by (simp add: YearFromDay_def Let_def q_def y_def)
  show ?thesis
    unfolding yfd using l1 l2 by auto
qed

lemma DayFromYear_mono: "a \<le> b \<Longrightarrow> DayFromYear a \<le> DayFromYear b"
proof -
  assume "a \<le> b"
  then obtain n where "b = a + int n" using zle_iff_zadd by blast
  moreover have "DayFromYear a \<le> DayFromYear (a + int n)"
  proof (induction n)
    case 0 show ?case by simp
  next
    case (Suc n)
    have e: "a + int (Suc n) = (a + int n) + 1" by simp
    have "DayFromYear (a + int (Suc n)) = DayFromYear (a + int n) + DaysInYear (a + int n)"
      by (simp only: e DayFromYear_step)
    moreover have "0 \<le> DaysInYear (a + int n)" by (simp add: DaysInYear_def)
    ultimately show ?case using Suc by linarith
  qed
  ultimately show ?thesis by simp
qed

lemma YearFromDay_unique:
  assumes "DayFromYear y \<le> d" "d < DayFromYear (y + 1)"
  shows "YearFromDay d = y"
proof (rule ccontr)
  assume ne: "YearFromDay d \<noteq> y"
  let ?Y = "YearFromDay d"
  from YearFromDay_bounds[of d] have b: "DayFromYear ?Y \<le> d" "d < DayFromYear (?Y + 1)" by simp_all
  from ne consider "?Y + 1 \<le> y" | "y + 1 \<le> ?Y" by linarith
  then show False
  proof cases
    case 1
    from DayFromYear_mono[OF 1] b assms show False by linarith
  next
    case 2
    from DayFromYear_mono[OF 2] b assms show False by linarith
  qed
qed

subsection \<open>Months and days\<close>

lemma sum_monthLengths: "sum_list (monthLengths y) = DaysInYear y"
  using DaysInYear_cases[of y] by (auto simp: monthLengths_def)

lemma length_monthLengths: "length (monthLengths y) = 12"
  by (simp add: monthLengths_def)

lemma monthLengths_pos: "l \<in> set (monthLengths y) \<Longrightarrow> 0 < l"
  by (auto simp: monthLengths_def)

lemma splitDays_sound:
  assumes "0 \<le> r" "r < sum_list ls"
  shows "\<exists>k < length ls. splitDays m ls r = (m + int k, r - sum_list (take k ls) + 1)
           \<and> sum_list (take k ls) \<le> r \<and> r < sum_list (take k ls) + ls ! k"
  using assms
proof (induction ls arbitrary: m r)
  case Nil
  then show ?case by simp
next
  case (Cons l ls)
  show ?case
  proof (cases "r < l")
    case True
    then show ?thesis using Cons.prems by (intro exI[of _ 0]) simp
  next
    case False
    then have "0 \<le> r - l" "r - l < sum_list ls" using Cons.prems by simp_all
    from Cons.IH[OF this, of "m + 1"] obtain k where k: "k < length ls"
      "splitDays (m + 1) ls (r - l) = (m + 1 + int k, r - l - sum_list (take k ls) + 1)"
      "sum_list (take k ls) \<le> r - l" "r - l < sum_list (take k ls) + ls ! k"
      by blast
    then show ?thesis using False by (intro exI[of _ "Suc k"]) simp
  qed
qed

lemma splitDays_complete:
  assumes "k < length ls" "0 \<le> r" "r < ls ! k" "\<forall>l \<in> set ls. 0 \<le> l"
  shows "splitDays m ls (sum_list (take k ls) + r) = (m + int k, r + 1)"
  using assms
proof (induction ls arbitrary: m k)
  case Nil
  then show ?case by simp
next
  case (Cons l ls)
  show ?case
  proof (cases k)
    case 0
    then show ?thesis using Cons.prems by simp
  next
    case (Suc k')
    have nn: "0 \<le> sum_list (take k' ls)"
      using Cons.prems(4) by (intro sum_list_nonneg) (auto dest: in_set_takeD)
    have "splitDays (m + 1) ls (sum_list (take k' ls) + r) = (m + 1 + int k', r + 1)"
      using Cons.prems Suc by (intro Cons.IH) simp_all
    then show ?thesis using Suc nn Cons.prems(2) by simp
  qed
qed


subsection \<open>From a day number to year, month, day and back\<close>

lemma MakeDay_in_year:
  assumes "0 \<le> m" "m < 12"
  shows "MakeDay y m d = DayFromYear y + sum_list (take (nat m) (monthLengths y)) + d - 1"
  using assms by (simp add: MakeDay_def Let_def)

lemma day_within_year:
  "0 \<le> Day t - DayFromYear (getFullYear t)"
  "Day t - DayFromYear (getFullYear t) < sum_list (monthLengths (getFullYear t))"
  using YearFromDay_bounds[of "Day t"] DayFromYear_step[of "getFullYear t"]
  by (simp_all add: getFullYear_def sum_monthLengths)

lemma date_fields:
  "0 \<le> getMonth t \<and> getMonth t < 12 \<and> 1 \<le> getDate t
   \<and> getDate t \<le> monthLengths (getFullYear t) ! nat (getMonth t)
   \<and> MakeDay (getFullYear t) (getMonth t) (getDate t) = Day t"
proof -
  let ?y = "getFullYear t"
  let ?r = "Day t - DayFromYear ?y"
  from splitDays_sound[OF day_within_year, of t 0]
  obtain k where k: "k < length (monthLengths ?y)"
    "splitDays 0 (monthLengths ?y) ?r = (int k, ?r - sum_list (take k (monthLengths ?y)) + 1)"
    "sum_list (take k (monthLengths ?y)) \<le> ?r"
    "?r < sum_list (take k (monthLengths ?y)) + monthLengths ?y ! k"
    by auto
  have m: "getMonth t = int k" and d: "getDate t = ?r - sum_list (take k (monthLengths ?y)) + 1"
    using k(2) by (simp_all add: getMonth_def getDate_def)
  have k12: "int k < 12" using k(1) by (simp add: length_monthLengths)
  have "MakeDay ?y (int k) (getDate t) = Day t"
    using k12 by (simp add: MakeDay_in_year d)
  then show ?thesis using k k12 by (simp add: m) (simp add: d)
qed

lemma MakeDay_add: "MakeDay y m (d + k) = MakeDay y m d + k"
  by (simp add: MakeDay_def Let_def)

lemma Day_add: "Day (t + k * msPerDay) = Day t + k"
  by (simp add: Day_def msPerDay_def)

lemma Day_sub: "Day (t - msPerDay) = Day t - 1"
  using Day_add[of t "-1"] by simp

lemma time_split: "Day t * msPerDay + t mod msPerDay = t"
  by (simp add: Day_def)

lemma setDate_pred: "setDate t (getDate t - 1) = t - msPerDay"
proof -
  have "MakeDay (getFullYear t) (getMonth t) (getDate t - 1) = Day t - 1"
    using MakeDay_add[of "getFullYear t" "getMonth t" "getDate t" "-1"] date_fields[of t] by simp
  then have "setDate t (getDate t - 1) = (Day t - 1) * msPerDay + t mod msPerDay"
    by (simp add: setDate_def)
  also have "\<dots> = Day t * msPerDay + t mod msPerDay - msPerDay"
    by (simp add: algebra_simps)
  finally show ?thesis by (simp only: time_split)
qed

lemma sum_take_Suc_le:
  assumes "k < length ls" "\<forall>l \<in> set ls. (0::int) \<le> l"
  shows "sum_list (take k ls) + ls ! k \<le> sum_list ls"
proof -
  have "ls = take k ls @ ls ! k # drop (Suc k) ls" using assms(1) by (simp add: id_take_nth_drop)
  then have "sum_list ls = sum_list (take k ls) + ls ! k + sum_list (drop (Suc k) ls)"
    by (metis sum_list.Cons sum_list.append add.assoc)
  moreover have "0 \<le> sum_list (drop (Suc k) ls)"
    using assms(2) by (intro sum_list_nonneg) (auto dest: in_set_dropD)
  ultimately show ?thesis by linarith
qed

lemma monthLengths_nonneg: "\<forall>l \<in> set (monthLengths y). 0 \<le> l"
  using monthLengths_pos by (auto intro: less_imp_le)

lemma fields_of_MakeDay:
  assumes m: "0 \<le> m" "m < 12" and d: "1 \<le> d" "d \<le> monthLengths y ! nat m"
    and t: "Day t = MakeDay y m d"
  shows "getFullYear t = y" "getMonth t = m" "getDate t = d"
proof -
  let ?s = "sum_list (take (nat m) (monthLengths y))"
  have k: "nat m < length (monthLengths y)" using m by (simp add: length_monthLengths)
  have nn: "0 \<le> ?s"
    using monthLengths_nonneg[of y] by (intro sum_list_nonneg) (auto dest: in_set_takeD)
  have top: "?s + monthLengths y ! nat m \<le> DaysInYear y"
    using sum_take_Suc_le[OF k monthLengths_nonneg] by (simp add: sum_monthLengths)
  have day: "Day t = DayFromYear y + ?s + d - 1"
    using t m by (simp add: MakeDay_in_year)
  have "DayFromYear y \<le> Day t" "Day t < DayFromYear (y + 1)"
    using day nn top d by (simp_all add: DayFromYear_step)
  then show y: "getFullYear t = y"
    unfolding getFullYear_def by (rule YearFromDay_unique)
  have "Day t - DayFromYear y = ?s + (d - 1)" using day by simp
  then have "splitDays 0 (monthLengths y) (Day t - DayFromYear y) = (0 + int (nat m), d - 1 + 1)"
    using splitDays_complete[OF k _ _ monthLengths_nonneg, of "d - 1" 0] d by simp
  then show "getMonth t = m" "getDate t = d"
    using m by (simp_all add: getMonth_def getDate_def y)
qed

lemma Day_mult: "Day (n * msPerDay) = n"
  by (simp add: Day_def msPerDay_def)


section \<open>Streaks, toggling and stored habits\<close>

subsection \<open>The backward walk\<close>

lemma truthy_wellFormed: "wellFormed c \<Longrightarrow> truthy c k = (k \<in> set (objectKeys c))"
proof -
  assume wf: "wellFormed c"
  then have d: "distinct (map fst c)" and v: "\<forall>(k, v) \<in> set c. v"
    by (auto simp: wellFormed_def list_all_iff)
  show ?thesis
  proof
    assume "truthy c k"
    then have "(k, True) \<in> set c" by (simp add: truthy_def map_of_SomeD)
    then show "k \<in> set (objectKeys c)" by (force simp: objectKeys_def)
  next
    assume "k \<in> set (objectKeys c)"
    then obtain v where kv: "(k, v) \<in> set c" by (auto simp: objectKeys_def)
    with v have "v" by auto
    with kv d show "truthy c k" by (simp add: truthy_def)
  qed
qed

lemma walkBack_count:
  assumes "0 \<le> s" "s \<le> 365"
  shows "walkBack c t s =
     s + int (length (takeWhile (\<lambda>i. truthy c (getDateKey (spec_dayBefore t i)))
                        [0..<nat (366 - s)]))"
  using assms
proof (induction c t s rule: walkBack.induct)
  case (1 c t s)
  let ?P = "\<lambda>t i. truthy c (getDateKey (spec_dayBefore t i))"
  have upt: "[0..<nat (366 - s)] = 0 # map Suc [0..<nat (365 - s)]"
  proof -
    have "nat (366 - s) = Suc (nat (365 - s))" using "1.prems" by simp
    then show ?thesis by (simp only: upt_conv_Cons zero_less_Suc map_Suc_upt)
  qed
  show ?case
  proof (cases "truthy c (getDateKey t)")
    case False
    then show ?thesis by (simp add: walkBack.simps[of c t s] upt spec_dayBefore_def)
  next
    case True
    show ?thesis
    proof (cases "s + 1 > 365")
      case top: True
      then have s: "s = 365" using "1.prems" by simp
      have "walkBack c t s = s + 1" using True top by (simp add: walkBack.simps[of c t s])
      then show ?thesis using True s by (simp add: spec_dayBefore_def)
    next
      case False
      have shift: "spec_dayBefore t (Suc i) = spec_dayBefore (t - msPerDay) i" for i
        by (simp add: spec_dayBefore_def algebra_simps)
      have zero: "spec_dayBefore t 0 = t" by (simp add: spec_dayBefore_def)
      have "walkBack c t s = walkBack c (t - msPerDay) (s + 1)"
        using True False by (simp add: walkBack.simps[of c t s] setDate_pred)
      also have "\<dots> = (s + 1) + int (length (takeWhile (?P (t - msPerDay)) [0..<nat (366 - (s + 1))]))"
        using "1.IH"[OF True False] "1.prems" False by (simp add: setDate_pred)
      also have "\<dots> = s + int (length (takeWhile (?P t) [0..<nat (366 - s)]))"
        using True by (simp add: upt takeWhile_map comp_def shift zero)
      finally show ?thesis .
    qed
  qed
qed

lemma walkBack_spec:
  assumes "wellFormed c"
  shows "walkBack c t 0 = spec_currentStreak c t"
  using walkBack_count[of 0 c t] by (simp add: spec_currentStreak_def truthy_wellFormed[OF assms])

lemma walkBack_ge: "s \<le> walkBack c t s"
proof (induction c t s rule: walkBack.induct)
  case (1 c t s)
  show ?case
  proof (cases "truthy c (getDateKey t) \<and> \<not> s + 1 > 365")
    case True
    then have "walkBack c t s = walkBack c (setDate t (getDate t - 1)) (s + 1)"
      by (simp add: walkBack.simps[of c t s])
    moreover have "s + 1 \<le> walkBack c (setDate t (getDate t - 1)) (s + 1)"
      using "1.IH" True by simp
    ultimately show ?thesis by simp
  next
    case False
    then show ?thesis by (auto simp: walkBack.simps[of c t s])
  qed
qed

lemma outerLoop_ge: "a \<le> outerLoop z freq ks i a"
proof (induction z freq ks i a rule: outerLoop.induct)
  case (1 z freq ks i a)
  show ?case
  proof (cases "i < length ks")
    case True
    then have "outerLoop z freq ks i a =
        outerLoop z freq ks (i + 1) (max a (innerLoop z freq ks (i + 1) 1))"
      by (simp add: outerLoop.simps[of z freq ks i a])
    moreover have "max a (innerLoop z freq ks (i + 1) 1)
        \<le> outerLoop z freq ks (i + 1) (max a (innerLoop z freq ks (i + 1) 1))"
      using "1.IH"[OF True] .
    ultimately show ?thesis by simp
  next
    case False
    then show ?thesis by (simp add: outerLoop.simps[of z freq ks i a])
  qed
qed

lemma calculateStreaks_bounds:
  "0 \<le> fst (calculateStreaks z h c t) \<and> 0 \<le> snd (calculateStreaks z h c t)
   \<and> fst (calculateStreaks z h c t) \<le> snd (calculateStreaks z h c t)"
  using walkBack_ge[of 0 c t] outerLoop_ge[of 0 z "frequency h" "sort (objectKeys c)" 0]
  by (simp add: calculateStreaks_def Let_def le_max_iff_disj)



lemma sort_keys_Nil: "(sort (objectKeys c) = []) = (c = [])"
proof -
  have "length (sort (objectKeys c)) = length c" by (simp add: objectKeys_def)
  then show ?thesis by (metis length_0_conv)
qed

lemma calculateStreaks_current:
  assumes "wellFormed c"
  shows "fst (calculateStreaks z h c t) = spec_currentStreak c t"
proof (cases "c = []")
  case True
  then show ?thesis
    by (simp add: calculateStreaks_def spec_currentStreak_def objectKeys_def upt_rec)
next
  case False
  then show ?thesis
    by (simp add: calculateStreaks_def Let_def sort_keys_Nil walkBack_spec[OF assms])
qed

subsection \<open>Toggling\<close>

lemma truthy_iff_key:
  assumes "list_all snd c"
  shows "truthy c k = (k \<in> fst ` set c)"
proof
  assume "truthy c k"
  then have "(k, True) \<in> set c" by (simp add: truthy_def map_of_SomeD)
  then show "k \<in> fst ` set c" by force
next
  assume "k \<in> fst ` set c"
  then obtain v where v: "map_of c k = Some v"
    by (cases "map_of c k") (auto simp: map_of_eq_None_iff)
  then have "(k, v) \<in> set c" by (rule map_of_SomeD)
  then have "v" using assms by (auto simp: list_all_iff)
  with v show "truthy c k" by (simp add: truthy_def)
qed

lemma toggleCompletion_map_of:
  assumes "list_all snd c"
  shows "map_of (toggleCompletion c d) =
     (if d \<in> fst ` set c then (map_of c)(d := None) else (map_of c)(d \<mapsto> True))"
  using truthy_iff_key[OF assms, of d]
  by (simp add: toggleCompletion_def AList.update_conv' AList.delete_conv')

lemma set_update_True: "set (AList.update d True c) \<subseteq> insert (d, True) (set c)"
  by (induction c) auto

lemma toggleCompletion_values:
  assumes "list_all snd c"
  shows "list_all snd (toggleCompletion c d)"
proof -
  have "snd p" if "p \<in> set (AList.update d True c)" for p
    using that assms set_update_True[of d c] by (auto simp: list_all_iff)
  moreover have "snd p" if "p \<in> set (AList.delete d c)" for p
    using that assms by (auto simp: list_all_iff AList.delete_eq)
  ultimately show ?thesis by (auto simp: toggleCompletion_def list_all_iff)
qed

lemma toggleCompletion_keys:
  "set (objectKeys (toggleCompletion c d)) =
     (if truthy c d then set (objectKeys c) - {d} else insert d (set (objectKeys c)))"
proof -
  have "fst ` set (AList.delete d c) = fst ` set c - {d}"
    by (force simp: AList.delete_eq)
  then show ?thesis
    using AList.dom_update[of d True c] by (simp add: toggleCompletion_def objectKeys_def)
qed

lemma toggleCompletion_distinct:
  "distinct (map fst c) \<Longrightarrow> distinct (map fst (toggleCompletion c d))"
  by (simp add: toggleCompletion_def AList.distinct_update AList.distinct_delete)

lemma toggleCompletion_twice:
  assumes "list_all snd c"
  shows "map_of (toggleCompletion (toggleCompletion c d) d) = map_of c"
proof (cases "d \<in> fst ` set c")
  case True
  then have t: "truthy c d" using truthy_iff_key[OF assms] by simp
  then have "map_of c d = Some True" by (simp add: truthy_def)
  moreover have "d \<notin> fst ` set (toggleCompletion c d)"
    using toggleCompletion_keys[of c d] t by (simp add: objectKeys_def)
  ultimately show ?thesis
    using True
    by (simp add: toggleCompletion_map_of[OF toggleCompletion_values[OF assms]]
        toggleCompletion_map_of[OF assms] fun_eq_iff)
next
  case False
  then have t: "\<not> truthy c d" using truthy_iff_key[OF assms] by simp
  then have "map_of c d = None" using False by (simp add: map_of_eq_None_iff)
  moreover have "d \<in> fst ` set (toggleCompletion c d)"
    using toggleCompletion_keys[of c d] t by (simp add: objectKeys_def)
  ultimately show ?thesis
    using False
    by (simp add: toggleCompletion_map_of[OF toggleCompletion_values[OF assms]]
        toggleCompletion_map_of[OF assms] fun_eq_iff)
qed

subsection \<open>The streak fields of stored habits\<close>

lemma toggleHabitCompletion_invariant:
  assumes "\<forall>h \<in> set (habits u). streakInvariant h"
  shows "\<forall>h \<in> set (habits (toggleHabitCompletion z habitId t u)). streakInvariant h"
proof (cases "find (\<lambda>h. hid h = habitId) (habits u)")
  case None
  then show ?thesis using assms by (simp add: toggleHabitCompletion_def)
next
  case (Some habit)
  define c where "c = toggleCompletion (case completions habit of None \<Rightarrow> [] | Some c0 \<Rightarrow> c0)
      (getDateKey t)"
  obtain cur lng where r: "calculateStreaks z habit c t = (cur, lng)" by (cases "calculateStreaks z habit c t")
  have b: "0 \<le> cur \<and> 0 \<le> lng \<and> cur \<le> lng"
    using calculateStreaks_bounds[of z habit c t] r by simp
  have "toggleHabitCompletion z habitId t u =
      updateHabit habitId
        (\<lambda>h. h\<lparr>completions := Some c, currentStreak := cur, longestStreak := lng\<rparr>) u"
    using Some r by (simp add: toggleHabitCompletion_def Let_def c_def)
  then show ?thesis
    using assms b by (auto simp: updateHabit_def streakInvariant_def)
qed

lemma addHabit_invariant:
  assumes "\<forall>h \<in> set (habits u). streakInvariant h"
  shows "\<forall>h \<in> set (habits (addHabit newId now fd u)). streakInvariant h"
  using assms by (auto simp: addHabit_def streakInvariant_def)

lemma editHabit_invariant:
  assumes "\<forall>h \<in> set (habits u). streakInvariant h"
  shows "\<forall>h \<in> set (habits (editHabit habitId fd u)). streakInvariant h"
  using assms by (auto simp: editHabit_def updateHabit_def streakInvariant_def)

subsection \<open>Applicability\<close>

lemma getDay_range: "0 \<le> getDay t \<and> getDay t \<le> 6"
  by (simp add: getDay_def)



subsection \<open>The longest run\<close>

lemma setHours0_parsed: "setHours0 (d * msPerDay + tz) = (d + tz div msPerDay) * msPerDay"
proof -
  have "(d * msPerDay + tz) mod msPerDay = tz mod msPerDay" by simp
  moreover have "tz = (tz div msPerDay) * msPerDay + tz mod msPerDay" by simp
  ultimately show ?thesis unfolding setHours0_def by (simp add: algebra_simps)
qed

text \<open>In a zone with a fixed offset the days difference of two keys is their gap.\<close>

lemma getDaysDifference_parsed:
  assumes "dateParse a = Some da" "dateParse b = Some db"
  shows "getDaysDifference (fixedOffset tz) (dateFromString (fixedOffset tz) b)
           (dateFromString (fixedOffset tz) a) = Some (db - da)"
proof -
  have "(setHours0 (db * msPerDay + tz) - tz) - (setHours0 (da * msPerDay + tz) - tz)
      = (db - da) * msPerDay"
    unfolding setHours0_parsed by (simp add: algebra_simps)
  moreover have "(db - da) * msPerDay div (1000 * 60 * 60 * 24) = db - da"
    by (simp add: msPerDay_def)
  ultimately show ?thesis
    using assms
    by (simp add: getDaysDifference_def dateFromString_def LocalTime_def UTC_def fixedOffset_def)
qed

lemma gapContinues_parsed:
  assumes "dateParse a \<noteq> None" "dateParse b \<noteq> None"
  shows "gapContinues freq (getDaysDifference (fixedOffset tz)
           (dateFromString (fixedOffset tz) b) (dateFromString (fixedOffset tz) a))
     = spec_extends freq a b"
proof -
  from assms obtain da db where p: "dateParse a = Some da" "dateParse b = Some db" by auto
  show ?thesis
    by (simp add: getDaysDifference_parsed[OF p] gapContinues_def spec_extends_def
        spec_dayOfKey_def p Let_def)
qed

lemma innerLoop_count:
  assumes "z = fixedOffset tz" "\<forall>k \<in> set ks. dateParse k \<noteq> None" "1 \<le> j"
  shows "innerLoop z freq ks j s =
     s + int (length (takeWhile (\<lambda>j. spec_extends freq (ks ! (j - 1)) (ks ! j)) [j ..< length ks]))"
  using assms
proof (induction z freq ks j s rule: innerLoop.induct)
  case (1 z freq ks j s)
  show ?case
  proof (cases "j < length ks")
    case False
    then show ?thesis by (simp add: innerLoop.simps[of z freq ks j s])
  next
    case True
    then have "ks ! j \<in> set ks" "ks ! (j - 1) \<in> set ks" by simp_all
    then have "dateParse (ks ! (j - 1)) \<noteq> None" "dateParse (ks ! j) \<noteq> None"
      using "1.prems"(2) by blast+
    then have g: "gapContinues freq (getDaysDifference z (dateFromString z (ks ! j))
        (dateFromString z (ks ! (j - 1)))) = spec_extends freq (ks ! (j - 1)) (ks ! j)"
      unfolding "1.prems"(1) by (rule gapContinues_parsed)
    have upt: "[j ..< length ks] = j # [j + 1 ..< length ks]"
      using True by (simp add: upt_conv_Cons)
    show ?thesis
    proof (cases "spec_extends freq (ks ! (j - 1)) (ks ! j)")
      case False
      then show ?thesis using True g by (simp add: innerLoop.simps[of z freq ks j s] upt)
    next
      case ext: True
      have "innerLoop z freq ks j s = innerLoop z freq ks (j + 1) (s + 1)"
        using True g ext by (simp add: innerLoop.simps[of z freq ks j s])
      also have "\<dots> = (s + 1) + int (length (takeWhile
          (\<lambda>j. spec_extends freq (ks ! (j - 1)) (ks ! j)) [j + 1 ..< length ks]))"
        using "1.IH"[OF True refl _ "1.prems"(1,2)] g ext by simp
      finally show ?thesis using ext by (simp add: upt)
    qed
  qed
qed

lemma innerLoop_runLength:
  assumes "\<forall>k \<in> set ks. dateParse k \<noteq> None"
  shows "innerLoop (fixedOffset tz) freq ks (i + 1) 1 = int (spec_runLength freq ks i)"
  using innerLoop_count[OF refl assms, of "i + 1" tz freq 1] by (simp add: spec_runLength_def)

lemma outerLoop_fold:
  assumes "z = fixedOffset tz" "\<forall>k \<in> set ks. dateParse k \<noteq> None"
  shows "outerLoop z freq ks i a =
     fold (\<lambda>i m. max m (int (spec_runLength freq ks i))) [i ..< length ks] a"
  using assms
proof (induction z freq ks i a rule: outerLoop.induct)
  case (1 z freq ks i a)
  show ?case
  proof (cases "i < length ks")
    case False
    then show ?thesis by (simp add: outerLoop.simps[of z freq ks i a])
  next
    case True
    have upt: "[i ..< length ks] = i # [i + 1 ..< length ks]"
      using True by (simp add: upt_conv_Cons)
    have run: "innerLoop z freq ks (i + 1) 1 = int (spec_runLength freq ks i)"
      unfolding "1.prems"(1) using "1.prems"(2) by (rule innerLoop_runLength)
    have "outerLoop z freq ks i a =
        outerLoop z freq ks (i + 1) (max a (innerLoop z freq ks (i + 1) 1))"
      using True by (simp add: outerLoop.simps[of z freq ks i a])
    also have "\<dots> = fold (\<lambda>i m. max m (int (spec_runLength freq ks i))) [i + 1 ..< length ks]
        (max a (innerLoop z freq ks (i + 1) 1))"
      using "1.IH"[OF True "1.prems"] by simp
    finally show ?thesis
      unfolding run by (simp add: upt)
  qed
qed

lemma fold_max_Max:
  fixes f :: "nat \<Rightarrow> int"
  shows "fold (\<lambda>i m. max m (f i)) xs a = Max (insert a (set (map f xs)))"
proof (induction xs arbitrary: a)
  case Nil
  show ?case by simp
next
  case (Cons x xs)
  have "fold (\<lambda>i m. max m (f i)) (x # xs) a = Max (insert (max a (f x)) (set (map f xs)))"
    using Cons.IH by simp
  also have "\<dots> = max (max a (f x)) (Max (insert (f x) (set (map f xs))))"
    by (cases "xs = []") (simp_all add: max.assoc max.left_commute)
  also have "\<dots> = Max (insert a (insert (f x) (set (map f xs))))"
    by (simp add: max.assoc)
  finally show ?case by simp
qed

lemma spec_runLength_pos: "1 \<le> spec_runLength freq ks i"
  by (simp add: spec_runLength_def)

lemma outerLoop_spec:
  assumes "\<forall>k \<in> set ks. dateParse k \<noteq> None"
  shows "outerLoop (fixedOffset tz) freq ks 0 0 = spec_longestRun freq ks"
proof (cases "ks = []")
  case True
  then show ?thesis
    by (simp add: outerLoop.simps[of "fixedOffset tz" freq "[]" 0 0] spec_longestRun_def)
next
  case False
  let ?S = "set (map (spec_runLength freq ks) [0 ..< length ks])"
  have ne: "?S \<noteq> {}" using False by simp
  have "outerLoop (fixedOffset tz) freq ks 0 0 =
      Max (insert 0 (set (map (\<lambda>i. int (spec_runLength freq ks i)) [0 ..< length ks])))"
    by (simp only: outerLoop_fold[OF refl assms] fold_max_Max)
  also have "set (map (\<lambda>i. int (spec_runLength freq ks i)) [0 ..< length ks]) = int ` ?S"
    by (simp add: image_image)
  also have "Max (insert 0 (int ` ?S)) = max 0 (Max (int ` ?S))"
    using ne by (intro Max_insert) simp_all
  also have "Max (int ` ?S) = int (Max ?S)"
    using ne by (intro mono_Max_commute[symmetric]) (auto simp: mono_def)
  finally show ?thesis using False by (simp add: spec_longestRun_def)
qed

lemma sort_keys_spec:
  assumes "distinct (map fst c)"
  shows "sort (objectKeys c) = sorted_list_of_set (set (objectKeys c))"
  using assms sorted_list_of_set_sort_remdups[of "map fst c"]
  by (simp add: objectKeys_def distinct_remdups_id)


lemma wellFormed_keys:
  assumes "wellFormed c"
  shows "distinct (map fst c)" "\<forall>k \<in> set (objectKeys c). dateParse k \<noteq> None"
  using assms by (auto simp: wellFormed_def list_all_iff objectKeys_def)

lemma calculateStreaks_longest:
  assumes "wellFormed c"
  shows "snd (calculateStreaks (fixedOffset tz) h c t) =
     max (spec_longestRun (frequency h) (sort (objectKeys c)))
         (fst (calculateStreaks (fixedOffset tz) h c t))"
proof (cases "c = []")
  case True
  then show ?thesis by (simp add: calculateStreaks_def objectKeys_def spec_longestRun_def)
next
  case False
  have "\<forall>k \<in> set (sort (objectKeys c)). dateParse k \<noteq> None"
    using wellFormed_keys(2)[OF assms] by simp
  then have "outerLoop (fixedOffset tz) (frequency h) (sort (objectKeys c)) 0 0 =
      spec_longestRun (frequency h) (sort (objectKeys c))"
    by (rule outerLoop_spec)
  then show ?thesis using False by (simp add: calculateStreaks_def Let_def sort_keys_Nil)
qed

text \<open>In every zone the run that the inner loop counts is no longer than the list.\<close>

lemma innerLoop_le:
  assumes "j \<le> length ks"
  shows "innerLoop z freq ks j s \<le> s + int (length ks - j)"
  using assms
proof (induction z freq ks j s rule: innerLoop.induct)
  case (1 z freq ks j s)
  show ?case
  proof (cases "j < length ks \<and> gapContinues freq (getDaysDifference z
      (dateFromString z (ks ! j)) (dateFromString z (ks ! (j - 1))))")
    case True
    then have lt: "j < length ks"
      and g: "gapContinues freq (getDaysDifference z (dateFromString z (ks ! j))
        (dateFromString z (ks ! (j - 1))))"
      by simp_all
    have "innerLoop z freq ks j s = innerLoop z freq ks (j + 1) (s + 1)"
      using lt g by (simp add: innerLoop.simps[of z freq ks j s])
    moreover have "innerLoop z freq ks (j + 1) (s + 1) \<le> (s + 1) + int (length ks - (j + 1))"
      using lt g by (intro "1.IH"[OF lt refl g]) simp
    ultimately show ?thesis using lt by simp
  next
    case False
    then have "innerLoop z freq ks j s = s"
      by (auto simp: innerLoop.simps[of z freq ks j s] Let_def)
    then show ?thesis by simp
  qed
qed

lemma outerLoop_le:
  assumes "a \<le> int (length ks)"
  shows "outerLoop z freq ks i a \<le> int (length ks)"
  using assms
proof (induction z freq ks i a rule: outerLoop.induct)
  case (1 z freq ks i a)
  show ?case
  proof (cases "i < length ks")
    case True
    have "innerLoop z freq ks (i + 1) 1 \<le> 1 + int (length ks - (i + 1))"
      using True by (intro innerLoop_le) simp
    then have "max a (innerLoop z freq ks (i + 1) 1) \<le> int (length ks)"
      using True "1.prems" by simp
    then have "outerLoop z freq ks (i + 1) (max a (innerLoop z freq ks (i + 1) 1))
        \<le> int (length ks)"
      by (rule "1.IH"[OF True])
    then show ?thesis using True by (simp add: outerLoop.simps[of z freq ks i a])
  next
    case False
    then show ?thesis using "1.prems" by (simp add: outerLoop.simps[of z freq ks i a])
  qed
qed

lemma calculateStreaks_longest_le:
  "snd (calculateStreaks z h c t) \<le> max (fst (calculateStreaks z h c t)) (int (length c))"
proof (cases "c = []")
  case True
  then show ?thesis by (simp add: calculateStreaks_def objectKeys_def)
next
  case False
  have "outerLoop z (frequency h) (sort (objectKeys c)) 0 0 \<le> int (length (sort (objectKeys c)))"
    by (rule outerLoop_le) simp
  then have "outerLoop z (frequency h) (sort (objectKeys c)) 0 0 \<le> int (length c)"
    by (simp add: objectKeys_def)
  then show ?thesis
    using False by (simp add: calculateStreaks_def Let_def sort_keys_Nil)
qed


subsection \<open>The monthly series\<close>

lemma monthLoop_map:
  "monthLoop h m y n d acc = acc @ map (monthEntryOf h m y) [d..n]"
proof (induction h m y n d acc rule: monthLoop.induct)
  case (1 h m y n d acc)
  show ?case
  proof (cases "d \<le> n")
    case True
    then have "[d..n] = d # [d + 1..n]" by (rule upto_rec1)
    then show ?thesis
      using True "1.IH"[OF True refl]
      by (simp add: monthLoop.simps[of h m y n d acc] monthEntryOf_def Let_def)
  next
    case False
    then show ?thesis by (simp add: monthLoop.simps[of h m y n d acc])
  qed
qed

lemma getMonthlyData_map:
  "getMonthlyData h m y = map (monthEntryOf h m y) [1..getDate (newDate y (m + 1) 0)]"
  by (simp add: getMonthlyData_def Let_def monthLoop_map)

lemma month_cases:
  assumes "0 \<le> (m::int)" "m \<le> 11"
  shows "m \<in> set [0, 1, 2, 3, 4, 5, 6, 7, 8, 9, 10, 11]"
  using assms by (simp, presburger)

lemma monthLengths_spec:
  assumes "0 \<le> m" "m \<le> 11"
  shows "monthLengths y ! nat m = spec_daysInMonth m y"
  using month_cases[OF assms]
  by (auto simp: monthLengths_def spec_daysInMonth_def DaysInYear_def)

lemma MakeDay_last_of_month:
  assumes "0 \<le> m" "m \<le> 11"
  shows "MakeDay y (m + 1) 0 = MakeDay y m (monthLengths y ! nat m)"
  using month_cases[OF assms] DaysInYear_cases[of y]
  by (auto simp: MakeDay_def Let_def monthLengths_def DayFromYear_step)

lemma newDate_plain:
  assumes "y < 0 \<or> 99 < y"
  shows "newDate y m d = MakeDay y m d * msPerDay"
  using assms by (auto simp: newDate_def)

lemma daysInMonth_computed:
  assumes "0 \<le> m" "m \<le> 11" "y < 0 \<or> 99 < y"
  shows "getDate (newDate y (m + 1) 0) = spec_daysInMonth m y"
proof -
  let ?l = "monthLengths y ! nat m"
  have l: "1 \<le> ?l"
    using monthLengths_pos[of ?l y] assms by (simp add: length_monthLengths)
  have "Day (newDate y (m + 1) 0) = MakeDay y m ?l"
    by (simp add: newDate_plain[OF assms(3)] Day_mult MakeDay_last_of_month[OF assms(1,2)])
  then have "getDate (newDate y (m + 1) 0) = ?l"
    using assms l by (intro fields_of_MakeDay(3)[where y = y and m = m]) simp_all
  then show ?thesis by (simp add: monthLengths_spec[OF assms(1,2)])
qed

lemma newDate_fields:
  assumes "0 \<le> m" "m \<le> 11" "y < 0 \<or> 99 < y" "1 \<le> d" "d \<le> spec_daysInMonth m y"
  shows "getFullYear (newDate y m d) = y \<and> getMonth (newDate y m d) = m
    \<and> getDate (newDate y m d) = d"
proof -
  have "Day (newDate y m d) = MakeDay y m d"
    by (simp add: newDate_plain[OF assms(3)] Day_mult)
  moreover have "d \<le> monthLengths y ! nat m"
    using assms by (simp add: monthLengths_spec)
  ultimately show ?thesis
    using assms fields_of_MakeDay[where t = "newDate y m d" and y = y and m = m and d = d]
    by simp
qed



subsection \<open>Date keys: the order of strings is the order of days\<close>

lemma digitVal_Some:
  assumes "digitVal c = Some v"
  shows "0 \<le> v" "v \<le> 9" "int (of_char c) = v + 48"
  using assms by (auto simp: digitVal_def Let_def of_nat_of_char split: if_splits)

lemma digitVal_less:
  assumes "digitVal c = Some v" "digitVal c' = Some v'" "c < c'"
  shows "v < v'"
  using digitVal_Some(3)[OF assms(1)] digitVal_Some(3)[OF assms(2)] assms(3)
  by (simp add: less_char_def)

lemma parseDigits_less:
  assumes "length xs = length xs'"
    and "parseDigits xs a = Some v" "parseDigits xs' a' = Some v'"
    and "a < a' \<or> (a = a' \<and> xs < xs')"
  shows "v < v'"
  using assms
proof (induction xs xs' arbitrary: a a' rule: list_induct2)
  case Nil
  then show ?case by simp
next
  case (Cons c cs c' cs')
  from Cons.prems(1) obtain d where d: "digitVal c = Some d"
    and r: "parseDigits cs (10 * a + d) = Some v"
    by (auto split: option.splits)
  from Cons.prems(2) obtain d' where d': "digitVal c' = Some d'"
    and r': "parseDigits cs' (10 * a' + d') = Some v'"
    by (auto split: option.splits)
  note b = digitVal_Some(1,2)[OF d] digitVal_Some(1,2)[OF d']
  have "10 * a + d < 10 * a' + d' \<or> (10 * a + d = 10 * a' + d' \<and> cs < cs')"
  proof (cases "a < a'")
    case True
    then show ?thesis using b by linarith
  next
    case False
    then have eq: "a = a'" and lt: "c # cs < c' # cs'" using Cons.prems(3) by auto
    from lt consider "c < c'" | "c = c'" "cs < cs'" by auto
    then show ?thesis
    proof cases
      case 1
      then show ?thesis using digitVal_less[OF d d'] eq by simp
    next
      case 2
      then show ?thesis using d d' eq by simp
    qed
  qed
  then show ?case by (rule Cons.IH[OF r r'])
qed

lemma append_less_same_length:
  assumes "length xs = length xs'"
  shows "(xs @ ys < xs' @ ys') = (xs < xs' \<or> (xs = xs' \<and> ys < (ys' :: 'a :: linorder list)))"
  using assms by (induction xs xs' rule: list_induct2) auto

lemma key_split:
  assumes "length k = 10"
  shows "k = take 4 k @ k ! 4 # take 2 (drop 5 k) @ k ! 7 # drop 8 k"
proof -
  have a: "k = take 4 k @ k ! 4 # drop 5 k"
    using id_take_nth_drop[of 4 k] assms by simp
  have "drop 5 k = take 2 (drop 5 k) @ drop 5 k ! 2 # drop 3 (drop 5 k)"
    using id_take_nth_drop[of 2 "drop 5 k"] assms by simp
  then have b: "drop 5 k = take 2 (drop 5 k) @ k ! 7 # drop 8 k"
    using assms by simp
  show ?thesis using a b by simp
qed

text \<open>The parts of a key that \<open>dateParse\<close> accepts.\<close>

lemma dateParse_Some:
  assumes "dateParse k = Some dn"
  obtains y m d where "length k = 10" "k ! 4 = CHR ''-''" "k ! 7 = CHR ''-''"
    "parseDigits (take 4 k) 0 = Some y" "parseDigits (take 2 (drop 5 k)) 0 = Some m"
    "parseDigits (drop 8 k) 0 = Some d" "1 \<le> m" "m \<le> 12" "1 \<le> d"
    "d \<le> monthLengths y ! nat (m - 1)" "dn = MakeDay y (m - 1) d"
  using assms unfolding dateParse_def
  by (auto split: if_splits option.splits)


lemma sum_take_Suc:
  assumes "k < length ls"
  shows "sum_list (take (Suc k) ls) = sum_list (take k ls) + (ls ! k :: int)"
  using assms by (simp add: take_Suc_conv_app_nth)

lemma sum_take_mono:
  assumes "i \<le> j" "\<forall>l \<in> set ls. (0::int) \<le> l"
  shows "sum_list (take i ls) \<le> sum_list (take j ls)"
proof -
  have "take j ls = take i ls @ take (j - i) (drop i ls)"
    using assms(1) take_add[of i "j - i" ls] by simp
  moreover have "0 \<le> sum_list (take (j - i) (drop i ls))"
    using assms(2) by (intro sum_list_nonneg) (auto dest!: in_set_takeD in_set_dropD)
  ultimately show ?thesis by simp
qed

lemma MakeDay_range:
  assumes "0 \<le> m" "m < 12" "1 \<le> d" "d \<le> monthLengths y ! nat m"
  shows "DayFromYear y \<le> MakeDay y m d" "MakeDay y m d < DayFromYear (y + 1)"
proof -
  let ?s = "sum_list (take (nat m) (monthLengths y))"
  have k: "nat m < length (monthLengths y)" using assms by (simp add: length_monthLengths)
  have nn: "0 \<le> ?s"
    using monthLengths_nonneg[of y] by (intro sum_list_nonneg) (auto dest: in_set_takeD)
  have top: "?s + monthLengths y ! nat m \<le> DaysInYear y"
    using sum_take_Suc_le[OF k monthLengths_nonneg] by (simp add: sum_monthLengths)
  show "DayFromYear y \<le> MakeDay y m d" "MakeDay y m d < DayFromYear (y + 1)"
    using nn top assms by (simp_all add: MakeDay_in_year DayFromYear_step)
qed

lemma MakeDay_less:
  assumes v: "0 \<le> m" "m < 12" "1 \<le> d" "d \<le> monthLengths y ! nat m"
    and v': "0 \<le> m'" "m' < 12" "1 \<le> d'" "d' \<le> monthLengths y' ! nat m'"
    and lt: "y < y' \<or> (y = y' \<and> (m < m' \<or> (m = m' \<and> d < d')))"
  shows "MakeDay y m d < MakeDay y' m' d'"
proof -
  consider "y < y'" | "y = y'" "m < m'" | "y = y'" "m = m'" "d < d'" using lt by blast
  then show ?thesis
  proof cases
    case 1
    then have "DayFromYear (y + 1) \<le> DayFromYear y'" by (intro DayFromYear_mono) simp
    then show ?thesis using MakeDay_range(2)[OF v] MakeDay_range(1)[OF v'] by linarith
  next
    case 2
    let ?ls = "monthLengths y"
    have k: "nat m < length ?ls" using v by (simp add: length_monthLengths)
    have "sum_list (take (Suc (nat m)) ?ls) \<le> sum_list (take (nat m') ?ls)"
      using 2 v v' by (intro sum_take_mono monthLengths_nonneg) simp
    then have "sum_list (take (nat m) ?ls) + ?ls ! nat m \<le> sum_list (take (nat m') ?ls)"
      by (simp only: sum_take_Suc[OF k])
    then show ?thesis using 2 v v' by (simp add: MakeDay_in_year)
  next
    case 3
    then show ?thesis by (simp add: MakeDay_def Let_def)
  qed
qed

lemma parseDigits_less0:
  assumes "length xs = length xs'" "parseDigits xs 0 = Some v" "parseDigits xs' 0 = Some v'"
    "xs < xs'"
  shows "v < v'"
  using parseDigits_less[OF assms(1,2,3)] assms(4) by simp

lemma key_less_day_less:
  assumes "dateParse a = Some da" "dateParse b = Some db" "a < b"
  shows "da < db"
proof -
  from assms(1) obtain y m d where a: "length a = 10" "a ! 4 = CHR ''-''" "a ! 7 = CHR ''-''"
    "parseDigits (take 4 a) 0 = Some y" "parseDigits (take 2 (drop 5 a)) 0 = Some m"
    "parseDigits (drop 8 a) 0 = Some d" "1 \<le> m" "m \<le> 12" "1 \<le> d"
    "d \<le> monthLengths y ! nat (m - 1)" "da = MakeDay y (m - 1) d"
    by (rule dateParse_Some)
  from assms(2) obtain y' m' d' where b: "length b = 10" "b ! 4 = CHR ''-''" "b ! 7 = CHR ''-''"
    "parseDigits (take 4 b) 0 = Some y'" "parseDigits (take 2 (drop 5 b)) 0 = Some m'"
    "parseDigits (drop 8 b) 0 = Some d'" "1 \<le> m'" "m' \<le> 12" "1 \<le> d'"
    "d' \<le> monthLengths y' ! nat (m' - 1)" "db = MakeDay y' (m' - 1) d'"
    by (rule dateParse_Some)
  let ?Y = "take 4 a" and ?M = "take 2 (drop 5 a)" and ?D = "drop 8 a"
  let ?Y' = "take 4 b" and ?M' = "take 2 (drop 5 b)" and ?D' = "drop 8 b"
  have sa: "a = ?Y @ CHR ''-'' # ?M @ CHR ''-'' # ?D"
    using key_split[OF a(1)] a(2,3) by simp
  have sb: "b = ?Y' @ CHR ''-'' # ?M' @ CHR ''-'' # ?D'"
    using key_split[OF b(1)] b(2,3) by simp
  have lY: "length ?Y = length ?Y'" and lM: "length ?M = length ?M'"
    and lD: "length ?D = length ?D'"
    using a(1) b(1) by simp_all
  have "?Y @ CHR ''-'' # ?M @ CHR ''-'' # ?D < ?Y' @ CHR ''-'' # ?M' @ CHR ''-'' # ?D'"
    using assms(3) sa sb by simp
  then have "?Y < ?Y' \<or> (?Y = ?Y' \<and> (?M < ?M' \<or> (?M = ?M' \<and> ?D < ?D')))"
    by (simp only: append_less_same_length[OF lY] append_less_same_length[OF lM]
        Cons_less_Cons) simp
  then consider "?Y < ?Y'" | "?Y = ?Y'" "?M < ?M'" | "?Y = ?Y'" "?M = ?M'" "?D < ?D'"
    by blast
  then have "y < y' \<or> (y = y' \<and> (m - 1 < m' - 1 \<or> (m - 1 = m' - 1 \<and> d < d')))"
  proof cases
    case 1
    then show ?thesis using parseDigits_less0[OF lY a(4) b(4)] by simp
  next
    case 2
    then have "y = y'" using a(4) b(4) by simp
    then show ?thesis using parseDigits_less0[OF lM a(5) b(5)] 2 by simp
  next
    case 3
    then have "y = y'" "m = m'" using a(4,5) b(4,5) by simp_all
    then show ?thesis using parseDigits_less0[OF lD a(6) b(6)] 3 by simp
  qed
  then show ?thesis
    unfolding a(11) b(11) using a(7-10) b(7-10) by (intro MakeDay_less) simp_all
qed


subsection \<open>Parsing the keys that getDateKey writes\<close>

lemma showNat_small: "n < 10 \<Longrightarrow> showNat n = [digitChar (nat n)]"
  by (simp add: showNat.simps[of n])

lemma showNat_rec:
  "10 \<le> n \<Longrightarrow> showNat n = showNat (n div 10) @ [digitChar (nat (n mod 10))]"
  by (simp add: showNat.simps[of n])

lemma digit_cases:
  assumes "0 \<le> (n::int)" "n \<le> 9"
  shows "n \<in> set [0, 1, 2, 3, 4, 5, 6, 7, 8, 9]"
  using assms by (simp, presburger)

lemma digitVal_digitChar:
  assumes "0 \<le> n" "n \<le> 9"
  shows "digitVal (digitChar (nat n)) = Some n"
  using digit_cases[OF assms]
  by (auto simp: digitVal_def digitChar_def)

lemma length_showNat_pos: "1 \<le> length (showNat n)"
  by (cases "n < 10") (simp_all add: showNat_small showNat_rec)

lemma parseDigits_showNat:
  assumes "0 \<le> n"
  shows "parseDigits (showNat n @ cs) a = parseDigits cs (a * 10 ^ length (showNat n) + n)"
  using assms
proof (induction n arbitrary: cs a rule: showNat.induct)
  case (1 n)
  show ?case
  proof (cases "n < 10")
    case True
    then show ?thesis
      using "1.prems" by (simp add: showNat_small digitVal_digitChar mult.commute)
  next
    case False
    then have ge: "10 \<le> n" by simp
    have d: "digitVal (digitChar (nat (n mod 10))) = Some (n mod 10)"
      by (intro digitVal_digitChar) simp_all
    have q: "0 \<le> n div 10" using "1.prems" by simp
    have "parseDigits (showNat n @ cs) a =
        parseDigits (showNat (n div 10) @ (digitChar (nat (n mod 10)) # cs)) a"
      by (simp add: showNat_rec[OF ge])
    also have "\<dots> = parseDigits (digitChar (nat (n mod 10)) # cs)
        (a * 10 ^ length (showNat (n div 10)) + n div 10)"
      using "1.IH"[OF False q] by simp
    also have "\<dots> = parseDigits cs
        (10 * (a * 10 ^ length (showNat (n div 10)) + n div 10) + n mod 10)"
      by (simp add: d)
    also have "10 * (a * 10 ^ length (showNat (n div 10)) + n div 10) + n mod 10
        = a * 10 ^ length (showNat n) + n"
      by (simp add: showNat_rec[OF ge] algebra_simps)
    finally show ?thesis .
  qed
qed

lemma parseDigits_showNat0: "0 \<le> n \<Longrightarrow> parseDigits (showNat n) 0 = Some n"
  using parseDigits_showNat[of n "[]" 0] by simp

lemma length_showNat_2: "10 \<le> n \<Longrightarrow> n < 100 \<Longrightarrow> length (showNat n) = 2"
  by (simp add: showNat_rec showNat_small)

lemma length_showNat_4: "1000 \<le> n \<Longrightarrow> n < 10000 \<Longrightarrow> length (showNat n) = 4"
proof -
  assume a: "1000 \<le> n" "n < 10000"
  have 1: "10 \<le> n" "10 \<le> n div 10" "10 \<le> n div 10 div 10" "n div 10 div 10 div 10 < 10"
    using a by simp_all
  show ?thesis
    by (simp add: showNat_rec[OF 1(1)] showNat_rec[OF 1(2)] showNat_rec[OF 1(3)]
        showNat_small[OF 1(4)])
qed

lemma padStart2_showInt:
  assumes "1 \<le> v" "v < 100"
  shows "length (padStart2 (showInt v)) = 2" "parseDigits (padStart2 (showInt v)) 0 = Some v"
proof -
  show "length (padStart2 (showInt v)) = 2"
    using assms
    by (cases "v < 10") (simp_all add: padStart2_def showInt_def showNat_small length_showNat_2)
  show "parseDigits (padStart2 (showInt v)) 0 = Some v"
  proof (cases "v < 10")
    case True
    then have "padStart2 (showInt v) = [CHR ''0'', digitChar (nat v)]"
      using assms by (simp add: padStart2_def showInt_def showNat_small)
    moreover have "digitVal CHR ''0'' = Some 0" by (simp add: digitVal_def)
    moreover have "digitVal (digitChar (nat v)) = Some v"
      using True assms by (intro digitVal_digitChar) simp_all
    ultimately show ?thesis by simp
  next
    case False
    then show ?thesis
      using assms
      by (simp add: padStart2_def showInt_def length_showNat_2 parseDigits_showNat0)
  qed
qed

lemma monthLengths_le_31:
  assumes "k < 12"
  shows "monthLengths y ! k \<le> 31"
proof -
  have "\<forall>l \<in> set (monthLengths y). l \<le> 31" by (simp add: monthLengths_def)
  then show ?thesis using assms by (simp add: length_monthLengths)
qed

lemma dateParse_getDateKey:
  assumes "dateParse (getDateKey t) = Some dn"
  shows "dn = Day t"
proof -
  define y m d where "y = getFullYear t" and "m = getMonth t" and "d = getDate t"
  note f = date_fields[of t, folded y_def m_def d_def]
  have m: "1 \<le> m + 1" "m + 1 < 100" using f by simp_all
  have "nat m < 12" using f by linarith
  then have d: "1 \<le> d" "d < 100"
    using f monthLengths_le_31[of "nat m" y] by simp_all
  let ?Y = "showInt y" and ?M = "padStart2 (showInt (m + 1))" and ?D = "padStart2 (showInt d)"
  have k: "getDateKey t = ?Y @ CHR ''-'' # ?M @ CHR ''-'' # ?D"
    by (simp add: getDateKey_def y_def m_def d_def)
  note lM = padStart2_showInt(1)[OF m] and lD = padStart2_showInt(1)[OF d]
  from assms obtain y' m' d' where p: "length (getDateKey t) = 10"
    "parseDigits (take 4 (getDateKey t)) 0 = Some y'"
    "parseDigits (take 2 (drop 5 (getDateKey t))) 0 = Some m'"
    "parseDigits (drop 8 (getDateKey t)) 0 = Some d'"
    "dn = MakeDay y' (m' - 1) d'"
    by (rule dateParse_Some)
  have lY: "length ?Y = 4" using p(1) lM lD by (simp add: k)
  have tY: "take 4 (getDateKey t) = ?Y" "take 2 (drop 5 (getDateKey t)) = ?M"
    "drop 8 (getDateKey t) = ?D"
    using lY lM lD by (simp_all add: k)
  have "0 \<le> y"
  proof (rule ccontr)
    assume "\<not> 0 \<le> y"
    then have "?Y = CHR ''-'' # showNat (- y)" by (simp add: showInt_def)
    then have "parseDigits ?Y 0 = None" by (simp add: digitVal_def)
    then show False using p(2) tY by simp
  qed
  then have "parseDigits ?Y 0 = Some y" by (simp add: showInt_def parseDigits_showNat0)
  then have "y' = y" "m' = m + 1" "d' = d"
    using p(2,3,4) tY padStart2_showInt(2)[OF m] padStart2_showInt(2)[OF d] by simp_all
  then show ?thesis using p(5) f by simp
qed

lemma dateParse_getDateKey_Some:
  assumes "1000 \<le> getFullYear t" "getFullYear t \<le> 9999"
  shows "dateParse (getDateKey t) = Some (Day t)"
proof -
  define y m d where "y = getFullYear t" and "m = getMonth t" and "d = getDate t"
  note f = date_fields[of t, folded y_def m_def d_def]
  have m: "1 \<le> m + 1" "m + 1 < 100" using f by simp_all
  have "nat m < 12" using f by linarith
  then have d: "1 \<le> d" "d < 100"
    using f monthLengths_le_31[of "nat m" y] by simp_all
  let ?Y = "showInt y" and ?M = "padStart2 (showInt (m + 1))" and ?D = "padStart2 (showInt d)"
  have k: "getDateKey t = ?Y @ CHR ''-'' # ?M @ CHR ''-'' # ?D"
    by (simp add: getDateKey_def y_def m_def d_def)
  note lM = padStart2_showInt(1)[OF m] and lD = padStart2_showInt(1)[OF d]
  have y: "1000 \<le> y" "y < 10000" using assms by (simp_all add: y_def)
  have lY: "length ?Y = 4" using y by (simp add: showInt_def length_showNat_4)
  have pY: "parseDigits ?Y 0 = Some y" using y by (simp add: showInt_def parseDigits_showNat0)
  have "dateParse (?Y @ CHR ''-'' # ?M @ CHR ''-'' # ?D) = Some (MakeDay y m d)"
    using lY lM lD pY padStart2_showInt(2)[OF m] padStart2_showInt(2)[OF d] f
    by (simp add: dateParse_def nth_append)
  then show ?thesis using f by (simp add: k)
qed


subsection \<open>A run of consecutive days among the sorted keys\<close>

lemma interval_in_increasing:
  fixes D :: "int list"
  assumes inc: "sorted_wrt (<) D" and mem: "\<forall>j < n. d0 + int j \<in> set D" and n: "0 < n"
  shows "\<exists>i. i + n \<le> length D \<and> (\<forall>j < n. D ! (i + j) = d0 + int j)"
proof -
  from mem n have "d0 + int 0 \<in> set D" by blast
  then obtain i where i: "i < length D" "D ! i = d0" by (auto simp: in_set_conv_nth)
  have less: "D ! a < D ! b" if "a < b" "b < length D" for a b
    using inc that by (simp add: sorted_wrt_iff_nth_less)
  have step: "j < n \<Longrightarrow> i + j < length D \<and> D ! (i + j) = d0 + int j" for j
  proof (induction j)
    case 0
    then show ?case using i by simp
  next
    case (Suc j)
    then have ih: "i + j < length D" "D ! (i + j) = d0 + int j" by simp_all
    from mem Suc.prems obtain p where p: "p < length D" "D ! p = d0 + int (Suc j)"
      by (auto simp: in_set_conv_nth)
    have "i + j < p"
    proof (rule ccontr)
      assume "\<not> i + j < p"
      then have "p = i + j \<or> p < i + j" by linarith
      then have "D ! p \<le> D ! (i + j)" using less[of p "i + j"] ih(1) by auto
      then show False using p(2) ih(2) by simp
    qed
    then have lt: "i + Suc j \<le> p" by simp
    have "D ! (i + Suc j) = D ! p"
    proof (rule ccontr)
      assume ne: "D ! (i + Suc j) \<noteq> D ! p"
      then have "i + Suc j < p" using lt by (cases "i + Suc j = p") auto
      then have "D ! (i + Suc j) < D ! p" using less p(1) by blast
      moreover have "D ! (i + j) < D ! (i + Suc j)" using less[of "i + j" "i + Suc j"] lt p(1) by simp
      ultimately show False using p(2) ih(2) by simp
    qed
    then show ?case using p lt by simp
  qed
  have "i + (n - 1) < length D"
    using step[of "n - 1"] n by simp
  then have "i + n \<le> length D" using n by linarith
  then show ?thesis using step by blast
qed

lemma takeWhile_prefix_length:
  assumes "i + n \<le> len" "0 < n" "\<forall>j. i < j \<and> j < i + n \<longrightarrow> P j"
  shows "n - 1 \<le> length (takeWhile P [i + 1 ..< len])"
proof -
  have "[i + 1 ..< len] = [i + 1 ..< i + n] @ [i + n ..< len]"
    using assms(1,2) upt_add_eq_append[of "i + 1" "i + n" "len - (i + n)"] by simp
  moreover have "\<forall>j \<in> set [i + 1 ..< i + n]. P j" using assms(3) by simp
  ultimately have "takeWhile P [i + 1 ..< len] = [i + 1 ..< i + n] @ takeWhile P [i + n ..< len]"
    by (simp only: takeWhile_append2)
  then show ?thesis by simp
qed

lemma spec_runLength_le: "i < length ks \<Longrightarrow> spec_runLength freq ks i \<le> length ks"
proof -
  assume "i < length ks"
  moreover have "length (takeWhile (\<lambda>j. spec_extends freq (ks ! (j - 1)) (ks ! j))
      [i + 1 ..< length ks]) \<le> length [i + 1 ..< length ks]"
    by (rule length_takeWhile_le)
  ultimately show ?thesis by (simp add: spec_runLength_def)
qed

lemma spec_longestRun_le: "spec_longestRun freq ks \<le> int (length ks)"
proof (cases "ks = []")
  case True
  then show ?thesis by (simp add: spec_longestRun_def)
next
  case False
  have "Max (set (map (spec_runLength freq ks) [0 ..< length ks])) \<le> length ks"
    using False by (intro Max.boundedI) (auto simp: spec_runLength_le)
  then show ?thesis using False by (simp add: spec_longestRun_def)
qed

lemma spec_longestRun_ge:
  assumes "i < length ks"
  shows "int (spec_runLength freq ks i) \<le> spec_longestRun freq ks"
proof -
  have "spec_runLength freq ks i \<in> set (map (spec_runLength freq ks) [0 ..< length ks])"
    using assms by simp
  then have "spec_runLength freq ks i \<le> Max (set (map (spec_runLength freq ks) [0 ..< length ks]))"
    by (intro Max_ge) simp_all
  then show ?thesis using assms by (auto simp: spec_longestRun_def)
qed

lemma sorted_keys_days_increasing:
  assumes "wellFormed c"
  shows "sorted_wrt (<) (map spec_dayOfKey (sort (objectKeys c)))"
proof -
  let ?ks = "sort (objectKeys c)"
  have d: "distinct ?ks" using wellFormed_keys(1)[OF assms] by (simp add: objectKeys_def)
  have p: "\<forall>k \<in> set ?ks. dateParse k \<noteq> None" using wellFormed_keys(2)[OF assms] by simp
  have "sorted_wrt (<) ?ks" using d by (simp add: strict_sorted_iff)
  then have "sorted_wrt (\<lambda>a b. spec_dayOfKey a < spec_dayOfKey b) ?ks"
  proof (rule sorted_wrt_mono_rel[rotated])
    fix a b
    assume ab: "a \<in> set ?ks" "b \<in> set ?ks" "a < b"
    then have "dateParse a \<noteq> None" "dateParse b \<noteq> None" using p by blast+
    then obtain da db where "dateParse a = Some da" "dateParse b = Some db" by auto
    then show "spec_dayOfKey a < spec_dayOfKey b"
      using key_less_day_less[of a da b db] ab(3) by (simp add: spec_dayOfKey_def)
  qed
  then show ?thesis by (simp add: sorted_wrt_map)
qed

lemma containsRun_days:
  assumes "wellFormed c" "containsRun c t n" "j < n"
  shows "Day t - int j \<in> set (map spec_dayOfKey (sort (objectKeys c)))"
proof -
  let ?k = "getDateKey (spec_dayBefore t j)"
  have k: "?k \<in> set (objectKeys c)"
    using assms(2,3) by (simp add: containsRun_def list_all_iff)
  then obtain dn where "dateParse ?k = Some dn"
    using wellFormed_keys(2)[OF assms(1)] by auto
  moreover from this have "dn = Day (spec_dayBefore t j)" by (rule dateParse_getDateKey)
  moreover have "Day (spec_dayBefore t j) = Day t - int j"
    using Day_add[of t "- int j"] by (simp add: spec_dayBefore_def)
  ultimately have "spec_dayOfKey ?k = Day t - int j" by (simp add: spec_dayOfKey_def)
  then show ?thesis using k by (force simp: image_iff)
qed

lemma longestRun_contains:
  assumes "wellFormed c" "containsRun c t n" "0 < n"
  shows "int n \<le> spec_longestRun freq (sort (objectKeys c))"
proof -
  let ?ks = "sort (objectKeys c)"
  let ?D = "map spec_dayOfKey ?ks"
  define d0 where "d0 = Day t - int (n - 1)"
  have mem: "\<forall>j < n. d0 + int j \<in> set ?D"
  proof (intro allI impI)
    fix j assume j: "j < n"
    then have "d0 + int j = Day t - int (n - 1 - j)" by (simp add: d0_def)
    moreover have "n - 1 - j < n" using j by simp
    ultimately show "d0 + int j \<in> set ?D"
      using containsRun_days[OF assms(1,2), of "n - 1 - j"] by simp
  qed
  from interval_in_increasing[OF sorted_keys_days_increasing[OF assms(1)] mem assms(3)]
  obtain i where i: "i + n \<le> length ?D" "\<forall>j < n. ?D ! (i + j) = d0 + int j" by blast
  then have len: "i + n \<le> length ?ks" by simp
  have ext: "spec_extends freq (?ks ! (j - 1)) (?ks ! j)" if "i < j \<and> j < i + n" for j
  proof -
    from that obtain a where a: "j = i + Suc a" "Suc a < n"
      by (metis add_Suc_right less_iff_Suc_add nat_add_left_cancel_less)
    have "Suc a < n" "a < n" using a(2) by simp_all
    then have "?D ! (i + Suc a) = d0 + int (Suc a)" "?D ! (i + a) = d0 + int a"
      using i(2) by blast+
    then have "spec_dayOfKey (?ks ! (i + Suc a)) - spec_dayOfKey (?ks ! (i + a)) = 1"
      using len a(2) by simp
    then show ?thesis by (simp add: a(1) spec_extends_def)
  qed
  have "n - 1 \<le> length (takeWhile (\<lambda>j. spec_extends freq (?ks ! (j - 1)) (?ks ! j))
      [i + 1 ..< length ?ks])"
    using len assms(3) ext by (intro takeWhile_prefix_length) blast+
  then have "n \<le> spec_runLength freq ?ks i" using assms(3) by (simp add: spec_runLength_def)
  moreover have "i < length ?ks" using len assms(3) by simp
  ultimately show ?thesis using spec_longestRun_ge[of i ?ks freq] by simp
qed

lemma currentStreak_capped:
  assumes "wellFormed c" "containsRun c t n" "366 \<le> n"
  shows "spec_currentStreak c t = 366"
proof -
  have "\<forall>i \<in> set [0..<366]. getDateKey (spec_dayBefore t i) \<in> set (objectKeys c)"
    using assms(2,3) by (simp add: containsRun_def list_all_iff)
  then have tw: "takeWhile (\<lambda>i. getDateKey (spec_dayBefore t i) \<in> set (objectKeys c)) [0..<366]
      = [0..<366]"
    by (simp only: takeWhile_eq_all_conv)
  show ?thesis unfolding spec_currentStreak_def tw by simp
qed

lemma streaks_of_long_run:
  assumes "wellFormed c" "containsRun c t n" "366 < n"
  shows "fst (calculateStreaks z h c t) = 366"
    and "int n \<le> snd (calculateStreaks (fixedOffset tz) h c t)"
    and "snd (calculateStreaks z h c t) \<le> max 366 (int (length c))"
proof -
  show cur: "fst (calculateStreaks z h c t) = 366" for z
    using calculateStreaks_current[OF assms(1)] currentStreak_capped[OF assms(1,2)] assms(3)
    by simp
  have "int n \<le> spec_longestRun (frequency h) (sort (objectKeys c))"
    using assms by (intro longestRun_contains[where t = t]) simp_all
  then show "int n \<le> snd (calculateStreaks (fixedOffset tz) h c t)"
    by (simp add: calculateStreaks_longest[OF assms(1)])
  show "snd (calculateStreaks z h c t) \<le> max 366 (int (length c))"
    using calculateStreaks_longest_le[of z h c t] by (simp add: cur)
qed


lemma YearFromDay_mono:
  assumes "a \<le> b"
  shows "YearFromDay a \<le> YearFromDay b"
proof (rule ccontr)
  assume "\<not> YearFromDay a \<le> YearFromDay b"
  then have "YearFromDay b + 1 \<le> YearFromDay a" by simp
  then have "DayFromYear (YearFromDay b + 1) \<le> DayFromYear (YearFromDay a)"
    by (rule DayFromYear_mono)
  then show False using YearFromDay_bounds[of a] YearFromDay_bounds[of b] assms by linarith
qed

lemma Day_dayBefore: "Day (spec_dayBefore t i) = Day t - int i"
  using Day_add[of t "- int i"] by (simp add: spec_dayBefore_def)

lemma runCompletions_parse:
  assumes "1000 \<le> getFullYear (spec_dayBefore t (n - 1))" "getFullYear t \<le> 9999" "i < n"
  shows "dateParse (getDateKey (spec_dayBefore t i)) = Some (Day t - int i)"
proof -
  have "Day t - int (n - 1) \<le> Day t - int i" using assms(3) by simp
  then have "YearFromDay (Day t - int (n - 1)) \<le> YearFromDay (Day t - int i)"
    by (rule YearFromDay_mono)
  then have lo: "1000 \<le> getFullYear (spec_dayBefore t i)"
    using assms(1) unfolding getFullYear_def Day_dayBefore by linarith
  have "Day t - int i \<le> Day t" by simp
  then have "YearFromDay (Day t - int i) \<le> YearFromDay (Day t)"
    by (rule YearFromDay_mono)
  then have hi: "getFullYear (spec_dayBefore t i) \<le> 9999"
    using assms(2) unfolding getFullYear_def Day_dayBefore by linarith
  have "dateParse (getDateKey (spec_dayBefore t i)) = Some (Day (spec_dayBefore t i))"
    using lo hi by (rule dateParse_getDateKey_Some)
  then show ?thesis by (simp only: Day_dayBefore)
qed

lemma runCompletions_wellFormed:
  assumes "1000 \<le> getFullYear (spec_dayBefore t (n - 1))" "getFullYear t \<le> 9999"
  shows "wellFormed (runCompletions t n)"
proof -
  note p = runCompletions_parse[OF assms]
  have "inj_on (\<lambda>i. getDateKey (spec_dayBefore t i)) (set [0..<n])"
  proof (rule inj_onI)
    fix i j
    assume i: "i \<in> set [0..<n]" and j: "j \<in> set [0..<n]"
      and e: "getDateKey (spec_dayBefore t i) = getDateKey (spec_dayBefore t j)"
    have "Some (Day t - int i) = dateParse (getDateKey (spec_dayBefore t i))"
      using i by (simp only: p set_upt atLeastLessThan_iff)
    also have "\<dots> = dateParse (getDateKey (spec_dayBefore t j))" by (simp only: e)
    also have "\<dots> = Some (Day t - int j)"
      using j by (simp only: p set_upt atLeastLessThan_iff)
    finally show "i = j" by simp
  qed
  then have "distinct (map (\<lambda>i. getDateKey (spec_dayBefore t i)) [0..<n])"
    by (simp only: distinct_map distinct_upt simp_thms)
  then have "distinct (map fst (runCompletions t n))"
    by (simp add: runCompletions_def comp_def)
  moreover have "list_all (\<lambda>(k, v). v \<and> dateParse k \<noteq> None) (runCompletions t n)"
    using p by (simp add: runCompletions_def list_all_iff)
  ultimately show ?thesis by (simp add: wellFormed_def)
qed


lemma runCompletions_contains: "m \<le> n \<Longrightarrow> containsRun (runCompletions t n) t m"
  by (auto simp: containsRun_def runCompletions_def objectKeys_def list_all_iff image_iff)

lemma length_runCompletions: "length (runCompletions t n) = n"
  by (simp add: runCompletions_def)

lemma year_2024: "getFullYear (newDate 2024 11 31) = 2024"
proof -
  have "Day (newDate 2024 11 31) = MakeDay 2024 11 31" by (simp add: newDate_def Day_mult)
  then show ?thesis
    by (rule fields_of_MakeDay(1)[rotated -1]) (simp_all add: monthLengths_def)
qed

lemma year_before_2024:
  assumes "i \<le> 1000"
  shows "1000 \<le> getFullYear (spec_dayBefore (newDate 2024 11 31) i)"
proof -
  have "DayFromYear 1000 \<le> Day (newDate 2024 11 31) - int i"
    using assms
    by (simp add: newDate_def Day_mult MakeDay_def DayFromYear_def monthLengths_def DaysInYear_def)
  then have "YearFromDay (DayFromYear 1000) \<le> getFullYear (spec_dayBefore (newDate 2024 11 31) i)"
    by (simp add: getFullYear_def Day_dayBefore YearFromDay_mono)
  moreover have "YearFromDay (DayFromYear 1000) = 1000"
    by (rule YearFromDay_unique) (simp_all add: DayFromYear_def)
  ultimately show ?thesis by simp
qed


lemma december_run:
  assumes "n \<le> 1000" "366 < n"
  shows "wellFormed (runCompletions (newDate 2024 11 31) n)"
    and "fst (calculateStreaks (fixedOffset tz) h (runCompletions (newDate 2024 11 31) n)
           (newDate 2024 11 31)) = 366"
    and "snd (calculateStreaks (fixedOffset tz) h (runCompletions (newDate 2024 11 31) n)
           (newDate 2024 11 31)) = int n"
proof -
  let ?t = "newDate 2024 11 31"
  have "n - 1 \<le> 1000" using assms(1) by simp
  then have "1000 \<le> getFullYear (spec_dayBefore ?t (n - 1))" by (rule year_before_2024)
  moreover have "getFullYear ?t \<le> 9999" by (simp add: year_2024)
  ultimately show wf: "wellFormed (runCompletions ?t n)" by (rule runCompletions_wellFormed)
  have run: "containsRun (runCompletions ?t n) ?t n" by (rule runCompletions_contains) simp
  show "fst (calculateStreaks (fixedOffset tz) h (runCompletions ?t n) ?t) = 366"
    using wf run assms(2) by (rule streaks_of_long_run(1))
  have "int n \<le> snd (calculateStreaks (fixedOffset tz) h (runCompletions ?t n) ?t)"
    using wf run assms(2) by (rule streaks_of_long_run(2))
  moreover have "snd (calculateStreaks (fixedOffset tz) h (runCompletions ?t n) ?t)
      \<le> max 366 (int (length (runCompletions ?t n)))"
    using wf run assms(2) by (rule streaks_of_long_run(3))
  ultimately show "snd (calculateStreaks (fixedOffset tz) h (runCompletions ?t n) ?t) = int n"
    using assms(2) by (simp add: length_runCompletions)
qed

text \<open>Maps of chosen days before a date.\<close>

lemma daysCompletions_parse:
  assumes "1000 \<le> getFullYear (spec_dayBefore t b)" "getFullYear t \<le> 9999" "i \<le> b"
  shows "dateParse (getDateKey (spec_dayBefore t i)) = Some (Day t - int i)"
  using runCompletions_parse[of t "Suc b" i] assms by simp

lemma daysCompletions_wellFormed:
  assumes "1000 \<le> getFullYear (spec_dayBefore t b)" "getFullYear t \<le> 9999"
    and "distinct ix" "\<forall>i \<in> set ix. i \<le> b"
  shows "wellFormed (daysCompletions t ix)"
proof -
  note p = daysCompletions_parse[OF assms(1,2)]
  have "inj_on (\<lambda>i. getDateKey (spec_dayBefore t i)) (set ix)"
  proof (rule inj_onI)
    fix i j
    assume i: "i \<in> set ix" and j: "j \<in> set ix"
      and e: "getDateKey (spec_dayBefore t i) = getDateKey (spec_dayBefore t j)"
    have "Some (Day t - int i) = dateParse (getDateKey (spec_dayBefore t i))"
      using i assms(4) by (simp add: p)
    also have "\<dots> = dateParse (getDateKey (spec_dayBefore t j))" by (simp only: e)
    also have "\<dots> = Some (Day t - int j)" using j assms(4) by (simp add: p)
    finally show "i = j" by simp
  qed
  then have "distinct (map (\<lambda>i. getDateKey (spec_dayBefore t i)) ix)"
    using assms(3) by (simp add: distinct_map)
  then have "distinct (map fst (daysCompletions t ix))"
    by (simp add: daysCompletions_def comp_def)
  moreover have "list_all (\<lambda>(k, v). v \<and> dateParse k \<noteq> None) (daysCompletions t ix)"
    using p assms(4) by (simp add: daysCompletions_def list_all_iff)
  ultimately show ?thesis by (simp add: wellFormed_def)
qed

lemma daysCompletions_contains:
  assumes "\<forall>j < m. k + j \<in> set ix"
  shows "containsRun (daysCompletions t ix) (spec_dayBefore t k) m"
proof -
  have e: "spec_dayBefore (spec_dayBefore t k) j = spec_dayBefore t (k + j)" for j
    by (simp add: spec_dayBefore_def algebra_simps)
  have "getDateKey (spec_dayBefore t (k + j)) \<in> set (objectKeys (daysCompletions t ix))"
    if "j < m" for j
    using assms that by (force simp: daysCompletions_def objectKeys_def image_iff)
  then show ?thesis by (simp add: containsRun_def list_all_iff e)
qed

lemma daysCompletions_absent:
  assumes "1000 \<le> getFullYear (spec_dayBefore t b)" "getFullYear t \<le> 9999"
    and "\<forall>i \<in> set ix. i \<le> b" "j \<le> b" "j \<notin> set ix"
  shows "getDateKey (spec_dayBefore t j) \<notin> set (objectKeys (daysCompletions t ix))"
proof
  note p = daysCompletions_parse[OF assms(1,2)]
  assume "getDateKey (spec_dayBefore t j) \<in> set (objectKeys (daysCompletions t ix))"
  then obtain i where i: "i \<in> set ix"
    and e: "getDateKey (spec_dayBefore t j) = getDateKey (spec_dayBefore t i)"
    by (auto simp: daysCompletions_def objectKeys_def)
  have "Some (Day t - int j) = dateParse (getDateKey (spec_dayBefore t j))"
    using assms(4) by (simp add: p)
  also have "\<dots> = dateParse (getDateKey (spec_dayBefore t i))" by (simp only: e)
  also have "\<dots> = Some (Day t - int i)" using i assms(3) by (simp add: p)
  finally have "i = j" by simp
  then show False using i assms(5) by simp
qed

text \<open>
  The days 0 to 366 and 369 to 736 before 2024-12-31: a run of 367 days that ends at
  that day, and, after a gap of two days, an earlier run of 368 days.
\<close>

lemma two_runs:
  shows "wellFormed (daysCompletions (newDate 2024 11 31) ([0..<367] @ [369..<737]))"
    and "containsRun (daysCompletions (newDate 2024 11 31) ([0..<367] @ [369..<737]))
           (newDate 2024 11 31) 367"
    and "\<not> containsRun (daysCompletions (newDate 2024 11 31) ([0..<367] @ [369..<737]))
           (newDate 2024 11 31) 368"
    and "fst (calculateStreaks (fixedOffset tz) h
           (daysCompletions (newDate 2024 11 31) ([0..<367] @ [369..<737]))
           (newDate 2024 11 31)) = 366"
    and "368 \<le> snd (calculateStreaks (fixedOffset tz) h
           (daysCompletions (newDate 2024 11 31) ([0..<367] @ [369..<737]))
           (newDate 2024 11 31))"
proof -
  let ?t = "newDate 2024 11 31"
  define ix :: "nat list" where "ix = [0..<367] @ [369..<737]"
  define c where "c = daysCompletions ?t ix"
  have ix: "set ix = {0..<367} \<union> {369..<737}"
    unfolding ix_def by (simp only: set_append set_upt)
  have lo: "1000 \<le> getFullYear (spec_dayBefore ?t 1000)" by (rule year_before_2024) simp
  have hi: "getFullYear ?t \<le> 9999" by (simp add: year_2024)
  have b: "\<forall>i \<in> set ix. i \<le> 1000" unfolding ix by auto
  have "{0..<367} \<inter> {369..<737} = ({}::nat set)" by auto
  then have d: "distinct ix"
    unfolding ix_def by (simp only: distinct_append distinct_upt set_upt simp_thms)
  have wf: "wellFormed c"
    unfolding c_def using lo hi d b by (rule daysCompletions_wellFormed)
  have z: "spec_dayBefore ?t 0 = ?t" by (simp add: spec_dayBefore_def)
  have "\<forall>j < 367. 0 + j \<in> set ix" unfolding ix by simp
  then have "containsRun c (spec_dayBefore ?t 0) 367"
    unfolding c_def by (rule daysCompletions_contains)
  then have run: "containsRun c ?t 367" by (simp only: z)
  have "367 \<notin> set ix" unfolding ix by simp
  then have "getDateKey (spec_dayBefore ?t 367) \<notin> set (objectKeys c)"
    unfolding c_def using lo hi b by (intro daysCompletions_absent[where b = 1000]) simp_all
  moreover have "(367::nat) \<in> {0..<368}" by simp
  ultimately have norun: "\<not> containsRun c ?t 368"
    unfolding containsRun_def list_all_iff set_upt by blast
  have cur: "fst (calculateStreaks (fixedOffset tz) h c ?t) = 366"
    using wf run by (rule streaks_of_long_run(1)) simp
  have "\<forall>j < 368. 369 + j \<in> set ix" unfolding ix by simp
  then have early: "containsRun c (spec_dayBefore ?t 369) 368"
    unfolding c_def by (rule daysCompletions_contains)
  have "int 368 \<le> spec_longestRun (frequency h) (sort (objectKeys c))"
    using wf early by (rule longestRun_contains) simp
  then have lng: "368 \<le> snd (calculateStreaks (fixedOffset tz) h c ?t)"
    by (simp add: calculateStreaks_longest[OF wf])
  show "wellFormed (daysCompletions ?t ([0..<367] @ [369..<737]))"
    using wf unfolding c_def ix_def .
  show "containsRun (daysCompletions ?t ([0..<367] @ [369..<737])) ?t 367"
    using run unfolding c_def ix_def .
  show "\<not> containsRun (daysCompletions ?t ([0..<367] @ [369..<737])) ?t 368"
    using norun unfolding c_def ix_def .
  show "fst (calculateStreaks (fixedOffset tz) h
      (daysCompletions ?t ([0..<367] @ [369..<737])) ?t) = 366"
    using cur unfolding c_def ix_def .
  show "368 \<le> snd (calculateStreaks (fixedOffset tz) h
      (daysCompletions ?t ([0..<367] @ [369..<737])) ?t)"
    using lng unfolding c_def ix_def .
qed


section \<open>Rounding: the error of a double and of toFixed(1)\<close>

text \<open>
  A double differs from the number it rounds by at most the relative error \<open>2^-53\<close>
  (subnormal numbers and overflow do not occur for the quotients met here).
\<close>

lemma roundHalfEven_error: "\<bar>of_int (roundHalfEven x) - x\<bar> \<le> 1 / 2"
proof -
  have "of_int \<lfloor>x\<rfloor> \<le> x" "x < of_int \<lfloor>x\<rfloor> + 1" by linarith+
  then show ?thesis by (auto simp: roundHalfEven_def Let_def)
qed

lemma binade_lower:
  assumes "x \<noteq> 0"
  shows "2 powi binade x \<le> \<bar>x\<bar>"
proof -
  obtain p q where pq: "quotient_of \<bar>x\<bar> = (p, q)" by (cases "quotient_of \<bar>x\<bar>")
  have q: "0 < q" using pq by (rule quotient_of_denom_pos)
  have x: "\<bar>x\<bar> = of_int p / of_int q" using pq by (rule quotient_of_div)
  have "0 < \<bar>x\<bar>" using assms by simp
  then have p: "0 < p" using x q by (simp add: zero_less_divide_iff)
  define k where "k = bitlen p - bitlen q"
  have b: "binade x = (if 2 powi k \<le> \<bar>x\<bar> then k else k - 1)"
    by (simp add: binade_def pq k_def Let_def)
  have low: "(2::rat) powi (k - 1) \<le> \<bar>x\<bar>"
  proof -
    have bp: "2 ^ nat (bitlen p - 1) \<le> p" and bq: "q < 2 ^ nat (bitlen q)"
      using bitlen_bounds[OF p] bitlen_bounds[OF q] by simp_all
    have "1 \<le> bitlen p"
    proof (rule ccontr)
      assume "\<not> 1 \<le> bitlen p"
      then have "nat (bitlen p) = 0" by simp
      then show False using bitlen_bounds[OF p] p by simp
    qed
    moreover have "0 \<le> bitlen q" by (rule bitlen_nonneg)
    ultimately have 1: "1 \<le> bitlen p" "0 \<le> bitlen q" .
    define A B where "A = nat (bitlen p - 1)" and "B = nat (bitlen q)"
    have "k - 1 = int A - int B"
      using 1 by (simp add: k_def A_def B_def)
    moreover have "(2::rat) powi (int A - int B) = 2 powi int A / 2 powi int B"
      by (rule power_int_diff) simp
    ultimately have "(2::rat) powi (k - 1) = 2 ^ A / 2 ^ B"
      by (simp only: power_int_of_nat)
    then have "(2::rat) powi (k - 1) = 2 ^ nat (bitlen p - 1) / 2 ^ nat (bitlen q)"
      by (simp only: A_def B_def)
    also have "\<dots> \<le> of_int p / of_int q"
    proof (rule frac_le)
      show "(0::rat) \<le> of_int p" using p by simp
      have "(of_int (2 ^ nat (bitlen p - 1)) :: rat) \<le> of_int p" using bp by (simp only: of_int_le_iff)
      then show "(2::rat) ^ nat (bitlen p - 1) \<le> of_int p" by simp
      show "(0::rat) < of_int q" using q by simp
      have "(of_int q :: rat) \<le> of_int (2 ^ nat (bitlen q))" using bq by (simp only: of_int_le_iff)
      then show "(of_int q :: rat) \<le> 2 ^ nat (bitlen q)" by simp
    qed
    finally show ?thesis by (simp only: x)
  qed
  show ?thesis unfolding b using low by simp
qed

lemma fl_error: "\<bar>fl x - x\<bar> \<le> \<bar>x\<bar> / 2 ^ 53"
proof (cases "x = 0")
  case True
  then show ?thesis by (simp add: fl_def)
next
  case False
  define u :: rat where "u = 2 powi (binade x - 52)"
  have u: "0 < u" by (simp add: u_def)
  have "fl x - x = (of_int (roundHalfEven (x / u)) - x / u) * u"
    using False u by (simp add: fl_def Let_def u_def[symmetric] algebra_simps)
  then have "\<bar>fl x - x\<bar> = \<bar>of_int (roundHalfEven (x / u)) - x / u\<bar> * u"
    using u by (simp add: abs_mult)
  also have "\<dots> \<le> (1 / 2) * u"
    using roundHalfEven_error[of "x / u"] u by (intro mult_right_mono) simp_all
  also have "(1 / 2) * u = 2 powi binade x / 2 ^ 53"
  proof -
    have "u = 2 powi binade x / 2 powi 52" unfolding u_def by (rule power_int_diff) simp
    then show ?thesis by simp
  qed
  also have "\<dots> \<le> \<bar>x\<bar> / 2 ^ 53"
    using binade_lower[OF False] by (intro divide_right_mono) simp_all
  finally show ?thesis .
qed

lemma rate_error:
  fixes a :: rat
  assumes "0 \<le> a"
  shows "\<bar>jsMul (fl a) 100 - 100 * a\<bar> \<le> 100 * a / 2 ^ 51"
proof -
  define x1 where "x1 = fl a"
  define x2 where "x2 = fl (x1 * 100)"
  have h1: "\<bar>x1 - a\<bar> \<le> a / 9007199254740992"
    using fl_error[of a] assms by (simp add: x1_def)
  have "a / 9007199254740992 \<le> a / 1"
    using assms by (intro divide_left_mono) simp_all
  then have p1: "0 \<le> x1" using h1 by linarith
  have h2: "\<bar>x2 - x1 * 100\<bar> \<le> x1 * 100 / 9007199254740992"
    using fl_error[of "x1 * 100"] p1 by (simp add: x2_def)
  have "\<bar>x2 - 100 * a\<bar> \<le> 100 * a / 2251799813685248"
    using h1 h2 assms p1 by linarith
  then show ?thesis by (simp add: jsMul_def x1_def x2_def)
qed

lemma nearest_tenth:
  fixes n t :: int
  assumes n: "0 \<le> n" "n \<le> 10 ^ 12" and t: "0 < t"
  defines "r \<equiv> jsMul (jsDiv (of_int n) (of_int t)) 100"
  shows "0 \<le> r"
    and "\<bar>of_int \<lfloor>r * 10 + 1 / 2\<rfloor> / 10 - 100 * of_int n / of_int t\<bar> \<le> (1 / 20 :: rat)"
proof -
  define x :: rat where "x = 100 * of_int n / of_int t"
  define N where "N = \<lfloor>r * 10 + 1 / 2\<rfloor>"
  have tq: "(0::rat) < of_int t" using t by simp
  have x0: "0 \<le> x" using n t by (simp add: x_def)
  have a0: "(0::rat) \<le> of_int n / of_int t" using n t by simp
  have err: "\<bar>r - x\<bar> \<le> x / 2251799813685248"
    using rate_error[OF a0] by (simp add: r_def jsDiv_def x_def)
  have "x / 2251799813685248 \<le> x / 1" using x0 by (intro divide_left_mono) simp_all
  then show "0 \<le> r" using err x0 by linarith
  have fl1: "of_int N \<le> r * 10 + 1 / 2" and fl2: "r * 10 + 1 / 2 < of_int N + 1"
    unfolding N_def by linarith+
  have small: "10 * (x / 2251799813685248) < 1 / (2 * of_int t)"
  proof -
    have "2000 * n < 2251799813685248" using n(2) by simp
    then have "(of_int (2000 * n) :: rat) < of_int 2251799813685248" by (simp only: of_int_less_iff)
    then have "2000 * (of_int n :: rat) / of_int t < 2251799813685248 / of_int t"
      using tq by (intro divide_strict_right_mono) simp_all
    then show ?thesis using tq by (simp add: x_def field_simps)
  qed
  have "\<bar>of_int N - 10 * x\<bar> \<le> 1 / 2"
  proof (rule ccontr)
    assume "\<not> \<bar>of_int N - 10 * x\<bar> \<le> 1 / 2"
    then have far: "1 / 2 < \<bar>of_int N - 10 * x\<bar>" by simp
    define K where "K = 2 * t * N - 2000 * n"
    have K: "(of_int K :: rat) = 2 * of_int t * (of_int N - 10 * x)"
      using tq by (simp add: K_def x_def field_simps)
    have "of_int t < \<bar>(of_int K :: rat)\<bar>"
    proof -
      have "2 * of_int t * (1 / 2) < 2 * of_int t * \<bar>of_int N - 10 * x\<bar>"
        using far tq by (intro mult_strict_left_mono) simp_all
      then show ?thesis unfolding K using tq by (simp add: abs_mult)
    qed
    then have "(of_int t :: rat) < of_int \<bar>K\<bar>" by simp
    then have "t < \<bar>K\<bar>" by (simp only: of_int_less_iff)
    then have "t + 1 \<le> \<bar>K\<bar>" by simp
    then have "(of_int (t + 1) :: rat) \<le> of_int \<bar>K\<bar>" by (simp only: of_int_le_iff)
    then have "of_int t + 1 \<le> \<bar>(of_int K :: rat)\<bar>" by simp
    then have "of_int t + 1 \<le> 2 * of_int t * \<bar>of_int N - 10 * x\<bar>"
      unfolding K using tq by (simp add: abs_mult)
    then have "(of_int t + 1) / (2 * of_int t) \<le> \<bar>of_int N - 10 * x\<bar>"
      using tq by (simp add: field_simps)
    moreover have "(of_int t + 1) / (2 * of_int t) = 1 / 2 + 1 / (2 * (of_int t :: rat))"
      using tq by (simp add: field_simps)
    ultimately have gap: "1 / 2 + 1 / (2 * of_int t) \<le> \<bar>of_int N - 10 * x\<bar>" by simp
    show False using gap small err fl1 fl2 by linarith
  qed
  then show "\<bar>of_int \<lfloor>r * 10 + 1 / 2\<rfloor> / 10 - 100 * of_int n / of_int t\<bar> \<le> (1 / 20 :: rat)"
    unfolding N_def[symmetric] x_def[symmetric] by linarith
qed

lemma toFixed1_nonneg:
  assumes "0 \<le> r"
  shows "toFixed1 r = showNat (\<lfloor>r * 10 + 1 / 2\<rfloor> div 10) @ ''.'' @ showNat (\<lfloor>r * 10 + 1 / 2\<rfloor> mod 10)"
  using assms by (simp add: toFixed1_def Let_def)

lemma toFixed1_zero: "toFixed1 0 = ''0.0''"
  by (simp add: toFixed1_def showNat_small digitChar_def)

lemma rate_5_of_10: "toFixed1 (jsMul (jsDiv 5 10) 100) = ''50.0''"
  by code_simp


section \<open>The statistics: completion rate and yearly series\<close>

lemma yearLoop_map:
  assumes "0 \<le> m" "m \<le> 12"
  shows "yearLoop h y m acc = acc @ map (yearEntryOf h y) [m..11]"
  using assms
proof (induction h y m acc rule: yearLoop.induct)
  case (1 h y m acc)
  show ?case
  proof (cases "m < 12")
    case True
    then have "[m..11] = m # [m + 1..11]" by (intro upto_rec1) simp
    then show ?thesis
      using True "1.IH"[OF True] "1.prems" by (simp add: yearLoop.simps[of h y m acc])
  next
    case False
    then have "yearLoop h y m acc = acc" by (simp add: yearLoop.simps[of h y m acc])
    moreover have "[m..11] = []" using False by simp
    ultimately show ?thesis by simp
  qed
qed

lemma getYearlyData_map: "getYearlyData h y = map (yearEntryOf h y) [0..11]"
  by (simp add: getYearlyData_def yearLoop_map)

text \<open>
  Where the offset from UTC is constant, the day difference of two Dates is the
  difference of their calendar days.
\<close>

lemma getDaysDifference_days:
  "getDaysDifference (fixedOffset tz) (Some a) (Some b) = Some (Day a - Day b)"
proof -
  have s: "setHours0 t = Day t * msPerDay" for t
    using time_split[of t] by (simp add: setHours0_def)
  have "(Day a * msPerDay - tz - (Day b * msPerDay - tz)) div (1000 * 60 * 60 * 24)
      = Day a - Day b"
  proof -
    have "Day a * msPerDay - tz - (Day b * msPerDay - tz) = (Day a - Day b) * 86400000"
      by (simp add: msPerDay_def algebra_simps)
    then show ?thesis by simp
  qed
  then show ?thesis by (simp add: getDaysDifference_def UTC_def fixedOffset_def s)
qed

lemma getHabitStats_rate:
  "completionRate (getHabitStats (fixedOffset tz) now h) =
     toFixed1 (if 0 < spec_daysSinceCreation now h
               then jsMul (jsDiv (of_nat (spec_keyCount h)) (of_int (spec_daysSinceCreation now h))) 100
               else 0)"
  "totalCompletions (getHabitStats z now h) = int (spec_keyCount h)"
  "statCurrentStreak (getHabitStats z now h) = currentStreak h"
  "statLongestStreak (getHabitStats z now h) = longestStreak h"
  by (auto simp: getHabitStats_def Let_def getDaysDifference_days spec_daysSinceCreation_def
      spec_keyCount_def objectKeys_def split: option.splits)

text \<open>
  The completion rate where the offset from UTC is constant: the quotient of the key
  count and the days since creation, times 100, as a decimal with one digit after the
  point that is within 0.05 of the exact value; \<open>0.0\<close> when no day has passed.
\<close>

lemma completionRate_fixedOffset:
  shows "spec_daysSinceCreation now h \<le> 0 \<Longrightarrow>
      completionRate (getHabitStats (fixedOffset tz) now h) = ''0.0''"
    and "0 < spec_daysSinceCreation now h \<Longrightarrow>
      completionRate (getHabitStats (fixedOffset tz) now h) =
        toFixed1 (jsMul (jsDiv (of_nat (spec_keyCount h))
                    (of_int (spec_daysSinceCreation now h))) 100)"
    and "0 < spec_daysSinceCreation now h \<Longrightarrow> int (spec_keyCount h) \<le> 10 ^ 12 \<Longrightarrow>
      \<bar>of_int \<lfloor>jsMul (jsDiv (of_nat (spec_keyCount h))
                  (of_int (spec_daysSinceCreation now h))) 100 * 10 + 1 / 2\<rfloor> / 10
        - of_nat (spec_keyCount h) / of_int (spec_daysSinceCreation now h) * 100\<bar>
      \<le> (1 / 20 :: rat)"
    and "spec_keyCount h = 5 \<Longrightarrow> spec_daysSinceCreation now h = 10 \<Longrightarrow>
      completionRate (getHabitStats (fixedOffset tz) now h) = ''50.0''"
proof -
  let ?n = "spec_keyCount h" and ?t = "spec_daysSinceCreation now h"
  let ?r = "jsMul (jsDiv (of_nat ?n) (of_int ?t)) 100"
  show "completionRate (getHabitStats (fixedOffset tz) now h) = ''0.0''" if "?t \<le> 0"
    using that by (simp add: getHabitStats_rate(1) toFixed1_zero)
  show "completionRate (getHabitStats (fixedOffset tz) now h) = toFixed1 ?r" if "0 < ?t"
    using that by (simp add: getHabitStats_rate(1))
  show "\<bar>of_int \<lfloor>?r * 10 + 1 / 2\<rfloor> / 10 - of_nat ?n / of_int ?t * 100\<bar> \<le> (1 / 20 :: rat)"
    if t: "0 < ?t" and n: "int ?n \<le> 10 ^ 12"
  proof -
    have n0: "0 \<le> int ?n" by simp
    have "\<bar>of_int \<lfloor>jsMul (jsDiv (of_int (int ?n)) (of_int ?t)) 100 * 10 + 1 / 2\<rfloor> / 10
        - 100 * of_int (int ?n) / of_int ?t\<bar> \<le> (1 / 20 :: rat)"
      using n0 n t by (rule nearest_tenth(2))
    then show ?thesis by (simp add: algebra_simps)
  qed
  show "completionRate (getHabitStats (fixedOffset tz) now h) = ''50.0''"
    if "?n = 5" "?t = 10"
    using that by (simp add: getHabitStats_rate(1) rate_5_of_10)
qed

lemma february_2024:
  "getMonthlyData ((exampleHabit ''daily'' None)
       \<lparr>completions := Some [(''2024-02-02'', True), (''2024-02-29'', True)]\<rparr>) 1 2024
     = map (\<lambda>d. \<lparr>day = d, completed = (if d = 2 \<or> d = 29 then 1 else 0),
                  date = ''2024-02-'' @ padStart2 (showInt d)\<rparr>) [1..29]"
  by code_simp

lemma yearEntryOf_fields:
  "yCompletions (yearEntryOf h year m) = spec_completedDays h m year"
  "0 < spec_totalDaysInMonth h m year"
  "yCompletionRate (yearEntryOf h year m) =
     jsMul (jsDiv (of_int (spec_completedDays h m year))
              (of_int (spec_totalDaysInMonth h m year))) 100"
proof -
  let ?md = "getMonthlyData h m year"
  have "1 \<le> getDate (newDate year (m + 1) 0)"
    using date_fields[of "newDate year (m + 1) 0"] by simp
  then show t: "0 < spec_totalDaysInMonth h m year"
    by (simp add: spec_totalDaysInMonth_def getMonthlyData_map)
  have "\<forall>d \<in> set ?md. (completed d \<noteq> 0) = (completed d = 1)"
    by (auto simp: getMonthlyData_map monthEntryOf_def)
  then have f: "filter (\<lambda>d. completed d \<noteq> 0) ?md = filter (\<lambda>d. completed d = 1) ?md"
    by (intro filter_cong) simp_all
  show "yCompletions (yearEntryOf h year m) = spec_completedDays h m year"
    by (simp add: yearEntryOf_def Let_def f spec_completedDays_def)
  show "yCompletionRate (yearEntryOf h year m) =
     jsMul (jsDiv (of_int (spec_completedDays h m year))
              (of_int (spec_totalDaysInMonth h m year))) 100"
    using t by (simp add: yearEntryOf_def Let_def f spec_completedDays_def
        spec_totalDaysInMonth_def)
qed

lemma getYearlyData_nth:
  assumes "0 \<le> m" "m \<le> 11"
  shows "getYearlyData h year ! nat m = yearEntryOf h year m"
proof -
  have l: "nat m < length [0..11]" using assms by simp
  have "[0..11] ! nat m = 0 + int (nat m)" using assms by (intro nth_upto) simp
  then have "[0..11] ! nat m = m" using assms by simp
  then show ?thesis
    unfolding getYearlyData_map using nth_map[OF l, of "yearEntryOf h year"] by simp
qed

lemma length_getYearlyData: "length (getYearlyData h year) = 12"
  unfolding getYearlyData_map by simp


section \<open>The claims\<close>

text \<open>
  C3. For every frequency and every reference date, the streaks of an empty completion
  map are \<open>currentStreak = 0\<close> and \<open>longestStreak = 0\<close>.
\<close>

theorem calculateStreaks_empty:
  "calculateStreaks z habit [] referenceDate = (0, 0)"
  by (simp add: calculateStreaks_def objectKeys_def)



text \<open>
  C4. For every habit, completion map and reference date the pair returned by
  \<open>calculateStreaks\<close> has \<open>currentStreak \<ge> 0\<close>, \<open>longestStreak \<ge> 0\<close> and
  \<open>longestStreak \<ge> currentStreak\<close>. Hence the same invariant on the stored streak
  fields of all habits of a user is preserved by creating a habit (both fields start
  at 0), by toggling a completion (both fields are rewritten from \<open>calculateStreaks\<close>)
  and by editing a habit (the fields are not written).
\<close>

theorem streak_fields_invariant:
  "0 \<le> fst (calculateStreaks z h c referenceDate)
   \<and> 0 \<le> snd (calculateStreaks z h c referenceDate)
   \<and> fst (calculateStreaks z h c referenceDate) \<le> snd (calculateStreaks z h c referenceDate)
   \<and> ((\<forall>x \<in> set (habits u). streakInvariant x) \<longrightarrow>
        (\<forall>x \<in> set (habits (addHabit newId now fd u)). streakInvariant x)
        \<and> (\<forall>x \<in> set (habits (toggleHabitCompletion z habitId selected u)). streakInvariant x)
        \<and> (\<forall>x \<in> set (habits (editHabit habitId fd u)). streakInvariant x))"
  using calculateStreaks_bounds[of z h c referenceDate] addHabit_invariant[of u newId now fd]
    toggleHabitCompletion_invariant[of u z habitId selected] editHabit_invariant[of u habitId fd]
  by blast

theorem streak_fields_invariant_witness:
  "streakInvariant (exampleHabit ''daily'' None)
   \<and> habits (toggleHabitCompletion (fixedOffset 0) ''h1'' (newDate 2024 0 5)
        \<lparr>habits = [exampleHabit ''daily'' None]\<rparr>)
      = [(exampleHabit ''daily'' None)\<lparr>completions := Some [(''2024-01-05'', True)],
           currentStreak := 1, longestStreak := 1\<rparr>]
   \<and> list_all streakInvariant (habits (toggleHabitCompletion (fixedOffset 0) ''h1'' (newDate 2024 0 5)
        \<lparr>habits = [exampleHabit ''daily'' None]\<rparr>))"
proof -
  have i: "\<forall>x \<in> set (habits \<lparr>habits = [exampleHabit ''daily'' None]\<rparr>). streakInvariant x"
    by (simp add: streakInvariant_def exampleHabit_def)
  have e: "habits (toggleHabitCompletion (fixedOffset 0) ''h1'' (newDate 2024 0 5)
        \<lparr>habits = [exampleHabit ''daily'' None]\<rparr>)
      = [(exampleHabit ''daily'' None)\<lparr>completions := Some [(''2024-01-05'', True)],
           currentStreak := 1, longestStreak := 1\<rparr>]"
    by code_simp
  from streak_fields_invariant[of "fixedOffset 0" "exampleHabit ''daily'' None" "[]" 0
      "\<lparr>habits = [exampleHabit ''daily'' None]\<rparr>" "''h2''" 0
      "\<lparr>formName = ''n'', formDescription = '''', formFrequency = ''daily'',
        formSelectedDays = [], formDifficulty = ''easy''\<rparr>" "''h1'' " "newDate 2024 0 5"] i
  have "\<forall>x \<in> set (habits (toggleHabitCompletion (fixedOffset 0) ''h1'' (newDate 2024 0 5)
        \<lparr>habits = [exampleHabit ''daily'' None]\<rparr>)). streakInvariant x"
    by blast
  then show ?thesis using i e by (simp add: list_all_iff)
qed

text \<open>
  C5. Toggling a date key in a completion map whose present keys are all mapped to
  \<open>true\<close> flips exactly the presence of that key: the key is removed if it was present
  and inserted (mapped to \<open>true\<close>) if it was absent, every other key keeps its value,
  and toggling the same key twice gives back the original map (as a map from keys to
  values; the order in which the object lists its keys may differ).
\<close>

theorem toggle_twice_restores:
  assumes "list_all snd c"
  shows "set (objectKeys (toggleCompletion c d)) =
           (if d \<in> set (objectKeys c) then set (objectKeys c) - {d}
            else insert d (set (objectKeys c)))
    \<and> (\<forall>k. k \<noteq> d \<longrightarrow> map_of (toggleCompletion c d) k = map_of c k)
    \<and> list_all snd (toggleCompletion c d)
    \<and> map_of (toggleCompletion (toggleCompletion c d) d) = map_of c"
  using toggleCompletion_keys[of c d] truthy_iff_key[OF assms, of d]
    toggleCompletion_map_of[OF assms, of d] toggleCompletion_values[OF assms, of d]
    toggleCompletion_twice[OF assms, of d]
  by (simp add: objectKeys_def)

theorem toggle_twice_restores_witness:
  "list_all snd [(''2024-01-04'', True), (''2024-01-05'', True)]
   \<and> toggleCompletion [(''2024-01-04'', True), (''2024-01-05'', True)] ''2024-01-04''
       = [(''2024-01-05'', True)]
   \<and> toggleCompletion (toggleCompletion [(''2024-01-04'', True), (''2024-01-05'', True)]
        ''2024-01-04'') ''2024-01-04'' = [(''2024-01-05'', True), (''2024-01-04'', True)]
   \<and> map_of [(''2024-01-05'', True), (''2024-01-04'', True)]
       = map_of [(''2024-01-04'', True), (''2024-01-05'', True)]"
proof -
  let ?c = "[(''2024-01-04'', True), (''2024-01-05'', True)]"
  have a: "list_all snd ?c" by simp
  have t1: "toggleCompletion ?c ''2024-01-04'' = [(''2024-01-05'', True)]"
    by (simp add: toggleCompletion_def truthy_def)
  have t2: "toggleCompletion [(''2024-01-05'', True)] ''2024-01-04''
      = [(''2024-01-05'', True), (''2024-01-04'', True)]"
    by (simp add: toggleCompletion_def truthy_def)
  from toggle_twice_restores[OF a, of "''2024-01-04''"]
  have "map_of (toggleCompletion (toggleCompletion ?c ''2024-01-04'') ''2024-01-04'') = map_of ?c"
    by blast
  then show ?thesis using a t1 t2 by simp
qed

text \<open>
  C7. The applicability predicate (the filter of \<open>todayHabits\<close>) is true for every date
  when the frequency is daily. When the frequency is weekly it is true if and only if
  the weekday index of the date (0 = Sunday .. 6 = Saturday) is among the habit's
  selected days, and false when that list is empty or the field is absent. For the
  selected days 1, 3, 5 it is true on a Wednesday (such as 2024-01-03) and false on a
  Saturday (such as 2024-01-06).
\<close>

theorem isApplicable_rule:
  "(frequency h = ''daily'' \<longrightarrow> isApplicable h t)
   \<and> (frequency h = ''weekly'' \<longrightarrow>
        isApplicable h t = (case selectedDays h of None \<Rightarrow> False | Some ds \<Rightarrow> getDay t \<in> set ds))
   \<and> (frequency h = ''weekly'' \<and> (selectedDays h = None \<or> selectedDays h = Some []) \<longrightarrow>
        \<not> isApplicable h t)
   \<and> 0 \<le> getDay t \<and> getDay t \<le> 6
   \<and> getDay (t + 7 * msPerDay) = getDay t
   \<and> getDay (newDate 2024 0 3) = 3 \<and> getDay (newDate 2024 0 6) = 6
   \<and> (frequency h = ''weekly'' \<and> selectedDays h = Some [1, 3, 5] \<longrightarrow>
        (getDay t = 3 \<longrightarrow> isApplicable h t) \<and> (getDay t = 6 \<longrightarrow> \<not> isApplicable h t))"
proof -
  have wed: "getDay (newDate 2024 0 3) = 3" and sat: "getDay (newDate 2024 0 6) = 6"
    by code_simp+
  have week: "getDay (t + 7 * msPerDay) = getDay t"
  proof -
    have "(Day t + 7 + 4) mod 7 = (Day t + 4) mod 7" by presburger
    then show ?thesis using Day_add[of t 7] by (simp add: getDay_def)
  qed
  show ?thesis
    using getDay_range[of t] wed sat week by (auto simp: isApplicable_def Let_def)
qed

theorem isApplicable_rule_witness:
  "isApplicable (exampleHabit ''weekly'' (Some [1, 3, 5])) (newDate 2024 0 3)
   \<and> \<not> isApplicable (exampleHabit ''weekly'' (Some [1, 3, 5])) (newDate 2024 0 6)
   \<and> isApplicable (exampleHabit ''daily'' None) (newDate 2024 0 6)
   \<and> \<not> isApplicable (exampleHabit ''weekly'' None) (newDate 2024 0 3)"
proof -
  have f: "frequency (exampleHabit ''weekly'' ds) = ''weekly''"
    "selectedDays (exampleHabit ''weekly'' ds) = ds"
    "frequency (exampleHabit ''daily'' ds) = ''daily''" for ds
    by (simp_all add: exampleHabit_def)
  from isApplicable_rule[of "exampleHabit ''weekly'' (Some [1, 3, 5])" "newDate 2024 0 3"]
    isApplicable_rule[of "exampleHabit ''weekly'' (Some [1, 3, 5])" "newDate 2024 0 6"]
    isApplicable_rule[of "exampleHabit ''daily'' None" "newDate 2024 0 6"]
    isApplicable_rule[of "exampleHabit ''weekly'' None" "newDate 2024 0 3"]
  show ?thesis by (simp add: f)
qed

text \<open>
  C8. For every habit with a well-formed completion map, every month index from 0 to 11
  and every year that a Date can represent (other than the years 0 to 99, which
  \<open>new Date(year, month, day)\<close> reads as 1900 to 1999), the monthly series has
  exactly \<open>daysInMonth(month, year)\<close> entries; their day values are 1 to that number
  in strictly ascending order; every \<open>completed\<close> field is 0 or 1, and it is 1 exactly
  when the date key of that day of that month and year is present in the habit's
  completions.
\<close>

theorem monthly_series:
  assumes "0 \<le> month" "month \<le> 11" and "-271820 \<le> year" "year \<le> 275759"
    and "year < 0 \<or> 99 < year" and "completions h = Some c" "wellFormed c"
  shows "length (getMonthlyData h month year) = nat (spec_daysInMonth month year)
    \<and> map day (getMonthlyData h month year) = [1..spec_daysInMonth month year]
    \<and> sorted_wrt (<) (map day (getMonthlyData h month year))
    \<and> (\<forall>e \<in> set (getMonthlyData h month year).
          (completed e = 0 \<or> completed e = 1)
          \<and> getFullYear (newDate year month (day e)) = year
          \<and> getMonth (newDate year month (day e)) = month
          \<and> getDate (newDate year month (day e)) = day e
          \<and> date e = getDateKey (newDate year month (day e))
          \<and> (completed e = 1) = (date e \<in> set (objectKeys c)))"
proof -
  let ?n = "spec_daysInMonth month year"
  have data: "getMonthlyData h month year = map (monthEntryOf h month year) [1..?n]"
    by (simp add: getMonthlyData_map daysInMonth_computed[OF assms(1,2,5)])
  have days: "map day (getMonthlyData h month year) = [1..?n]"
    unfolding data by (simp add: comp_def monthEntryOf_def)
  have len: "length (getMonthlyData h month year) = nat ?n"
    unfolding data by simp
  have entries: "(completed e = 0 \<or> completed e = 1)
          \<and> getFullYear (newDate year month (day e)) = year
          \<and> getMonth (newDate year month (day e)) = month
          \<and> getDate (newDate year month (day e)) = day e
          \<and> date e = getDateKey (newDate year month (day e))
          \<and> (completed e = 1) = (date e \<in> set (objectKeys c))"
    if "e \<in> set (getMonthlyData h month year)" for e
  proof -
    from that obtain d where d: "1 \<le> d" "d \<le> ?n" and e: "e = monthEntryOf h month year d"
      unfolding data by auto
    have f: "day e = d" "date e = getDateKey (newDate year month d)"
      "completed e = (if truthy c (getDateKey (newDate year month d)) then 1 else 0)"
      by (simp_all add: e monthEntryOf_def assms(6))
    show ?thesis
      using newDate_fields[OF assms(1,2,5) d] truthy_wellFormed[OF assms(7)]
      by (simp add: f)
  qed
  have asc: "sorted_wrt (<) (map day (getMonthlyData h month year))"
    unfolding days by (rule sorted_wrt_upto)
  show ?thesis
    using len days asc entries by blast
qed

theorem monthly_series_witness:
  "getMonthlyData ((exampleHabit ''daily'' None)
       \<lparr>completions := Some [(''2024-02-02'', True), (''2024-02-29'', True)]\<rparr>) 1 2024
     = map (\<lambda>d. \<lparr>day = d, completed = (if d = 2 \<or> d = 29 then 1 else 0),
                  date = ''2024-02-'' @ padStart2 (showInt d)\<rparr>) [1..29]
   \<and> length (getMonthlyData ((exampleHabit ''daily'' None)
       \<lparr>completions := Some [(''2024-02-02'', True), (''2024-02-29'', True)]\<rparr>) 1 2024)
     = nat (spec_daysInMonth 1 2024)"
proof -
  let ?h = "(exampleHabit ''daily'' None)
       \<lparr>completions := Some [(''2024-02-02'', True), (''2024-02-29'', True)]\<rparr>"
  have c: "completions ?h = Some [(''2024-02-02'', True), (''2024-02-29'', True)]"
    by (simp add: exampleHabit_def)
  have wf: "wellFormed [(''2024-02-02'', True), (''2024-02-29'', True)]" by code_simp
  have v: "getMonthlyData ?h 1 2024
     = map (\<lambda>d. \<lparr>day = d, completed = (if d = 2 \<or> d = 29 then 1 else 0),
                  date = ''2024-02-'' @ padStart2 (showInt d)\<rparr>) [1..29]"
    by code_simp
  from monthly_series[of 1 2024 ?h, OF _ _ _ _ _ c wf]
  have "length (getMonthlyData ?h 1 2024) = nat (spec_daysInMonth 1 2024)" by simp
  then show ?thesis using v by simp
qed

text \<open>
  C9. For every habit and every year that a Date can represent, the yearly series has
  exactly 12 entries, whatever the habit's data. For each month index \<open>m\<close> from 0 to
  11 the entry at index \<open>m\<close> carries as \<open>completions\<close> the number of completed entries
  of that month's monthly series; the series is not empty, so the rate is never the
  fallback 0 of an empty month; and \<open>completionRate\<close> is
  \<open>(completedDays / totalDaysInMonth) * 100\<close> evaluated in double arithmetic, which
  differs from the exact quotient times 100 by at most the relative error \<open>2^-51\<close>.
\<close>

theorem yearly_series:
  assumes "-271820 \<le> year" "year \<le> 275759"
  shows "length (getYearlyData h year) = 12
    \<and> (\<forall>m \<in> {0..11}.
          yCompletions (getYearlyData h year ! nat m) = spec_completedDays h m year
          \<and> 0 < spec_totalDaysInMonth h m year
          \<and> yCompletionRate (getYearlyData h year ! nat m) =
              jsMul (jsDiv (of_int (spec_completedDays h m year))
                       (of_int (spec_totalDaysInMonth h m year))) 100
          \<and> \<bar>yCompletionRate (getYearlyData h year ! nat m)
               - of_int (spec_completedDays h m year) / of_int (spec_totalDaysInMonth h m year) * 100\<bar>
             \<le> of_int (spec_completedDays h m year) / of_int (spec_totalDaysInMonth h m year) * 100
                 / 2 ^ 51)"
proof -
  have entry: "yCompletions (getYearlyData h year ! nat m) = spec_completedDays h m year
          \<and> 0 < spec_totalDaysInMonth h m year
          \<and> yCompletionRate (getYearlyData h year ! nat m) =
              jsMul (jsDiv (of_int (spec_completedDays h m year))
                       (of_int (spec_totalDaysInMonth h m year))) 100
          \<and> \<bar>yCompletionRate (getYearlyData h year ! nat m)
               - of_int (spec_completedDays h m year) / of_int (spec_totalDaysInMonth h m year) * 100\<bar>
             \<le> of_int (spec_completedDays h m year) / of_int (spec_totalDaysInMonth h m year) * 100
                 / 2 ^ 51"
    if m: "m \<in> {0..11}" for m
  proof -
    let ?c = "spec_completedDays h m year" and ?t = "spec_totalDaysInMonth h m year"
    have e: "getYearlyData h year ! nat m = yearEntryOf h year m"
      using m by (intro getYearlyData_nth) simp_all
    have "0 \<le> ?c" by (simp add: spec_completedDays_def)
    then have a0: "(0::rat) \<le> of_int ?c / of_int ?t"
      using yearEntryOf_fields(2)[of h m year] by simp
    have r: "\<bar>jsMul (jsDiv (of_int ?c) (of_int ?t)) 100 - of_int ?c / of_int ?t * 100\<bar>
        \<le> of_int ?c / of_int ?t * 100 / 2 ^ 51"
      using rate_error[OF a0] by (simp add: jsDiv_def algebra_simps)
    show ?thesis
      unfolding e yearEntryOf_fields(1,3) using yearEntryOf_fields(2)[of h m year] r by simp
  qed
  show ?thesis using length_getYearlyData[of h year] entry by blast
qed

theorem yearly_series_witness:
  "length (getYearlyData ((exampleHabit ''daily'' None)
       \<lparr>completions := Some [(''2024-02-02'', True), (''2024-02-29'', True)]\<rparr>) 2024) = 12
   \<and> yCompletions (getYearlyData ((exampleHabit ''daily'' None)
       \<lparr>completions := Some [(''2024-02-02'', True), (''2024-02-29'', True)]\<rparr>) 2024 ! 1) = 2
   \<and> yCompletionRate (getYearlyData ((exampleHabit ''daily'' None)
       \<lparr>completions := Some [(''2024-02-02'', True), (''2024-02-29'', True)]\<rparr>) 2024 ! 1)
      = jsMul (jsDiv 2 29) 100"
proof -
  let ?h = "(exampleHabit ''daily'' None)
       \<lparr>completions := Some [(''2024-02-02'', True), (''2024-02-29'', True)]\<rparr>"
  have c: "spec_completedDays ?h 1 2024 = 2"
    unfolding spec_completedDays_def february_2024 by code_simp
  have t: "spec_totalDaysInMonth ?h 1 2024 = 29"
    unfolding spec_totalDaysInMonth_def february_2024 by simp
  have y: "-271820 \<le> (2024::int)" "(2024::int) \<le> 275759" by simp_all
  have m: "(1::int) \<in> {0..11}" by simp
  from yearly_series[OF y, of ?h]
  have len: "length (getYearlyData ?h 2024) = 12"
    and all: "\<forall>m \<in> {0..11}.
          yCompletions (getYearlyData ?h 2024 ! nat m) = spec_completedDays ?h m 2024
          \<and> yCompletionRate (getYearlyData ?h 2024 ! nat m) =
              jsMul (jsDiv (of_int (spec_completedDays ?h m 2024))
                       (of_int (spec_totalDaysInMonth ?h m 2024))) 100"
    by blast+
  from all m have "yCompletions (getYearlyData ?h 2024 ! nat 1) = spec_completedDays ?h 1 2024"
    and "yCompletionRate (getYearlyData ?h 2024 ! nat 1) =
              jsMul (jsDiv (of_int (spec_completedDays ?h 1 2024))
                       (of_int (spec_totalDaysInMonth ?h 1 2024))) 100"
    by blast+
  then show ?thesis using len unfolding c t by simp
qed

text \<open>
  C10, as amended. The 366 cap applies to the current-streak walk only. For every habit
  and every well-formed completion map that contains the keys of \<open>n > 366\<close>
  consecutive calendar days ending at the reference date, \<open>calculateStreaks\<close> returns
  \<open>currentStreak = 366\<close> in every time zone, and a \<open>longestStreak\<close> that is at least
  366 and at most the larger of 366 and the number of keys. Where the zone's offset
  from UTC is constant, \<open>longestStreak \<ge> n\<close>, so it exceeds 366, and it equals \<open>n\<close>
  when the map holds no other key.
\<close>

theorem cap_only_on_current_streak:
  assumes "wellFormed c" "containsRun c referenceDate n" "366 < n"
  shows "fst (calculateStreaks z h c referenceDate) = 366
    \<and> 366 \<le> snd (calculateStreaks z h c referenceDate)
    \<and> snd (calculateStreaks z h c referenceDate) \<le> max 366 (int (length c))
    \<and> int n \<le> snd (calculateStreaks (fixedOffset tz) h c referenceDate)
    \<and> 366 < snd (calculateStreaks (fixedOffset tz) h c referenceDate)
    \<and> (length c = n \<longrightarrow> snd (calculateStreaks (fixedOffset tz) h c referenceDate) = int n)"
proof -
  have cur: "fst (calculateStreaks z h c referenceDate) = 366"
    using assms by (rule streaks_of_long_run(1))
  have up: "snd (calculateStreaks z h c referenceDate) \<le> max 366 (int (length c))" for z
    using assms by (rule streaks_of_long_run(3))
  have lo: "int n \<le> snd (calculateStreaks (fixedOffset tz) h c referenceDate)"
    using assms by (rule streaks_of_long_run(2))
  have "fst (calculateStreaks z h c referenceDate) \<le> snd (calculateStreaks z h c referenceDate)"
    using calculateStreaks_bounds[of z h c referenceDate] by simp
  then have ge: "366 \<le> snd (calculateStreaks z h c referenceDate)" by (simp only: cur)
  show ?thesis using cur ge up[of z] up[of "fixedOffset tz"] lo assms(3) by auto
qed

theorem cap_only_on_current_streak_witness:
  "wellFormed (runCompletions (newDate 2024 11 31) 400)
   \<and> containsRun (runCompletions (newDate 2024 11 31) 400) (newDate 2024 11 31) 400
   \<and> fst (calculateStreaks centralEurope2024 (exampleHabit ''daily'' None)
        (runCompletions (newDate 2024 11 31) 400) (newDate 2024 11 31)) = 366
   \<and> calculateStreaks (fixedOffset 0) (exampleHabit ''daily'' None)
        (runCompletions (newDate 2024 11 31) 400) (newDate 2024 11 31) = (366, 400)"
proof -
  let ?t = "newDate 2024 11 31"
  let ?c = "runCompletions ?t 400"
  have wf: "wellFormed ?c" by (rule december_run(1)) simp_all
  have run: "containsRun ?c ?t 400" by (rule runCompletions_contains) simp
  have n: "366 < (400::nat)" by simp
  from cap_only_on_current_streak[OF wf run n, of centralEurope2024
      "exampleHabit ''daily'' None" 0]
  have "fst (calculateStreaks centralEurope2024 (exampleHabit ''daily'' None) ?c ?t) = 366"
    "fst (calculateStreaks (fixedOffset 0) (exampleHabit ''daily'' None) ?c ?t) = 366"
    "snd (calculateStreaks (fixedOffset 0) (exampleHabit ''daily'' None) ?c ?t) = 400"
    using streaks_of_long_run(1)[OF wf run n, of "fixedOffset 0" "exampleHabit ''daily'' None"]
    by (simp_all add: length_runCompletions)
  then show ?thesis using wf run by (simp add: prod_eq_iff)
qed

text \<open>
  C10 as stated (\<open>longestStreak = n\<close> for every such run) fails, also for a daily habit
  in a zone without daylight saving. The map below holds the 367 consecutive days that
  end at the reference date 2024-12-31, misses the two days before them, and holds the
  368 consecutive days before those. The run that ends at the reference date has
  exactly \<open>n = 367\<close> days (the day 367 days before is missing), the current streak is
  366, and the longest streak is at least 368, the length of the earlier run.
\<close>

theorem longest_equals_run_counterexample:
  "wellFormed (daysCompletions (newDate 2024 11 31) ([0..<367] @ [369..<737]))
   \<and> containsRun (daysCompletions (newDate 2024 11 31) ([0..<367] @ [369..<737]))
        (newDate 2024 11 31) 367
   \<and> \<not> containsRun (daysCompletions (newDate 2024 11 31) ([0..<367] @ [369..<737]))
        (newDate 2024 11 31) 368
   \<and> 366 < (367::nat)
   \<and> fst (calculateStreaks (fixedOffset 0) (exampleHabit ''daily'' None)
        (daysCompletions (newDate 2024 11 31) ([0..<367] @ [369..<737]))
        (newDate 2024 11 31)) = 366
   \<and> 368 \<le> snd (calculateStreaks (fixedOffset 0) (exampleHabit ''daily'' None)
        (daysCompletions (newDate 2024 11 31) ([0..<367] @ [369..<737]))
        (newDate 2024 11 31))
   \<and> snd (calculateStreaks (fixedOffset 0) (exampleHabit ''daily'' None)
        (daysCompletions (newDate 2024 11 31) ([0..<367] @ [369..<737]))
        (newDate 2024 11 31)) \<noteq> 367"
proof -
  note r = two_runs(1,2,3) two_runs(4,5)[where tz = 0 and h = "exampleHabit ''daily'' None"]
  have "snd (calculateStreaks (fixedOffset 0) (exampleHabit ''daily'' None)
        (daysCompletions (newDate 2024 11 31) ([0..<367] @ [369..<737]))
        (newDate 2024 11 31)) \<noteq> 367"
    using r(5) by linarith
  then show ?thesis using r by (simp only: simp_thms)
qed

text \<open>
  C2, evaluated in a zone with daylight saving. The specified longest streak extends a
  run while consecutive sorted dates are exactly one day apart; \<open>getDaysDifference\<close>
  takes the floor of the milliseconds between the two local midnights divided by one
  day. In Central European Time the local midnights of 2024-03-31 and 2024-04-01 are
  23 hours apart, so their difference is 0 days. For a daily habit completed on
  2024-03-30, 2024-03-31 and 2024-04-01 the specified longest run is 3 and
  \<open>calculateStreaks\<close> returns the longest streak 2; with the constant offset of one
  hour it returns 3.
\<close>

theorem longestStreak_daylight_saving:
  "wellFormed [(''2024-03-30'', True), (''2024-03-31'', True), (''2024-04-01'', True)]
   \<and> spec_longestRun ''daily'' (sort (objectKeys
        [(''2024-03-30'', True), (''2024-03-31'', True), (''2024-04-01'', True)])) = 3
   \<and> getDaysDifference centralEurope2024 (dateFromString centralEurope2024 ''2024-04-01'')
        (dateFromString centralEurope2024 ''2024-03-31'') = Some 0
   \<and> calculateStreaks centralEurope2024 (exampleHabit ''daily'' None)
        [(''2024-03-30'', True), (''2024-03-31'', True), (''2024-04-01'', True)]
        (newDate 2024 2 29) = (0, 2)
   \<and> calculateStreaks (fixedOffset 3600000) (exampleHabit ''daily'' None)
        [(''2024-03-30'', True), (''2024-03-31'', True), (''2024-04-01'', True)]
        (newDate 2024 2 29) = (0, 3)"
proof -
  let ?c = "[(''2024-03-30'', True), (''2024-03-31'', True), (''2024-04-01'', True)]"
  have 1: "wellFormed ?c" by code_simp
  have 2: "spec_longestRun ''daily'' (sort (objectKeys ?c)) = 3" by code_simp
  have 3: "getDaysDifference centralEurope2024 (dateFromString centralEurope2024 ''2024-04-01'')
        (dateFromString centralEurope2024 ''2024-03-31'') = Some 0"
    by code_simp
  have 4: "calculateStreaks centralEurope2024 (exampleHabit ''daily'' None) ?c
        (newDate 2024 2 29) = (0, 2)"
    by code_simp
  have 5: "calculateStreaks (fixedOffset 3600000) (exampleHabit ''daily'' None) ?c
        (newDate 2024 2 29) = (0, 3)"
    by code_simp
  show ?thesis using 1 2 3 4 5 by (simp only: simp_thms)
qed

text \<open>
  C6, evaluated in a zone with daylight saving. The specified completion rate divides
  the number of completions by the calendar days since creation. A habit created at
  noon of 2024-03-25 and read at noon of 2024-04-04, ten calendar days later, with 5
  completions: in Central European Time the two local midnights are ten days less one
  hour apart, \<open>getDaysDifference\<close> returns 9 and the completion rate is \<open>55.6\<close>; with
  the constant offset of one hour it is \<open>50.0\<close>.
\<close>

theorem completionRate_daylight_saving:
  "spec_keyCount ((exampleHabit ''daily'' None)
      \<lparr>createdAt := newDate 2024 2 25 + 43200000,
        completions := Some [(''2024-03-25'', True), (''2024-03-27'', True),
          (''2024-03-29'', True), (''2024-03-31'', True), (''2024-04-02'', True)]\<rparr>) = 5
   \<and> spec_daysSinceCreation (newDate 2024 3 4 + 43200000) ((exampleHabit ''daily'' None)
      \<lparr>createdAt := newDate 2024 2 25 + 43200000,
        completions := Some [(''2024-03-25'', True), (''2024-03-27'', True),
          (''2024-03-29'', True), (''2024-03-31'', True), (''2024-04-02'', True)]\<rparr>) = 10
   \<and> getDaysDifference centralEurope2024 (Some (newDate 2024 3 4 + 43200000))
        (Some (newDate 2024 2 25 + 43200000)) = Some 9
   \<and> completionRate (getHabitStats centralEurope2024 (newDate 2024 3 4 + 43200000)
      ((exampleHabit ''daily'' None)
      \<lparr>createdAt := newDate 2024 2 25 + 43200000,
        completions := Some [(''2024-03-25'', True), (''2024-03-27'', True),
          (''2024-03-29'', True), (''2024-03-31'', True), (''2024-04-02'', True)]\<rparr>)) = ''55.6''
   \<and> completionRate (getHabitStats (fixedOffset 3600000) (newDate 2024 3 4 + 43200000)
      ((exampleHabit ''daily'' None)
      \<lparr>createdAt := newDate 2024 2 25 + 43200000,
        completions := Some [(''2024-03-25'', True), (''2024-03-27'', True),
          (''2024-03-29'', True), (''2024-03-31'', True), (''2024-04-02'', True)]\<rparr>)) = ''50.0''"
proof -
  let ?h = "(exampleHabit ''daily'' None)
      \<lparr>createdAt := newDate 2024 2 25 + 43200000,
        completions := Some [(''2024-03-25'', True), (''2024-03-27'', True),
          (''2024-03-29'', True), (''2024-03-31'', True), (''2024-04-02'', True)]\<rparr>"
  let ?now = "newDate 2024 3 4 + 43200000"
  have 1: "spec_keyCount ?h = 5" by (simp add: spec_keyCount_def exampleHabit_def)
  have 2: "spec_daysSinceCreation ?now ?h = 10" by code_simp
  have 3: "getDaysDifference centralEurope2024 (Some ?now)
      (Some (newDate 2024 2 25 + 43200000)) = Some 9"
    by code_simp
  have 4: "completionRate (getHabitStats centralEurope2024 ?now ?h) = ''55.6''" by code_simp
  have 5: "completionRate (getHabitStats (fixedOffset 3600000) ?now ?h) = ''50.0''"
    using 1 2 by (rule completionRate_fixedOffset(4))
  show ?thesis using 1 2 3 4 5 by (simp only: simp_thms)
qed

end
